theory Spec2Isabelle
  imports Main "HOL-Library.Monad_Syntax"
begin

unbundle bit_operations_syntax

section \<open>Machine model\<close>

text \<open>
  The allocator of \<^verbatim>\<open>Dynamic_Mem_Alloc.c\<close> keeps all of its bookkeeping inside the region it
  manages: every block starts with one \<^verbatim>\<open>int size_status\<close> word. The model keeps the three
  variables of the program (\<^verbatim>\<open>heap_start\<close>, \<^verbatim>\<open>alloc_size\<close> and the static flag
  \<^verbatim>\<open>allocated_once\<close> of \<^verbatim>\<open>init_heap\<close>) and the memory the process has mapped.

  Addresses are byte addresses, \<open>0\<close> is \<^verbatim>\<open>NULL\<close>. Memory is a partial map from the address of
  a 4-byte word to the \<^verbatim>\<open>int\<close> stored there; an address outside the domain is not mapped.
  The program only ever reads and writes whole \<^verbatim>\<open>int\<close> words at offsets that are multiples
  of 4 from the mapped base. A read or write of an unmapped word is the outcome \<open>Fault\<close>
  (in C: undefined behaviour, in practice a segmentation fault); dereferencing \<^verbatim>\<open>NULL\<close> is
  the instance at address \<open>0\<close>.
\<close>

type_synonym addr = int

record heap =
  heap_start :: addr
  alloc_size :: int
  allocated_once :: bool
  mem :: "addr \<Rightarrow> int option"

datatype 'a outcome = Fault | Done 'a

text \<open>The state of the process before any call: C zero-initialises the globals.\<close>

definition initial_heap :: heap where
  "initial_heap = \<lparr>heap_start = 0, alloc_size = 0, allocated_once = False, mem = (\<lambda>a. None)\<rparr>"

text \<open>
  \<^verbatim>\<open>int\<close> is 32 bits wide: \<open>wrap32\<close> is the value an out-of-range result takes in two's
  complement. \<open>to_size_t\<close> is the conversion of an \<^verbatim>\<open>int\<close> to the unsigned type of
  \<^verbatim>\<open>sizeof\<close>, which C applies before comparing the two.
\<close>

definition wrap32 :: "int \<Rightarrow> int" where
  "wrap32 x = signed_take_bit 31 x"

definition to_size_t :: "int \<Rightarrow> int" where
  "to_size_t x = take_bit 64 x"

definition sizeof_blockHeader :: int where
  "sizeof_blockHeader = 4"

definition load :: "heap \<Rightarrow> addr \<Rightarrow> int option" where
  "load s a = mem s a"

definition store :: "heap \<Rightarrow> addr \<Rightarrow> int \<Rightarrow> heap option" where
  "store s a v = (case mem s a of None \<Rightarrow> None | Some old \<Rightarrow> Some (s\<lparr>mem := (mem s)(a \<mapsto> v)\<rparr>))"

text \<open>Straight-line code runs in the option monad, \<open>None\<close> being an unmapped access.\<close>

definition run :: "'a option \<Rightarrow> 'a outcome" where
  "run r = (case r of None \<Rightarrow> Fault | Some x \<Rightarrow> Done x)"

text \<open>
  The three fields packed in a \<^verbatim>\<open>size_status\<close> word (comment of lines 18-29): the size with
  the two low bits masked out, bit 0 (this block is allocated) and bit 1 (the previous block
  is allocated).
\<close>

definition hd_size :: "int \<Rightarrow> int" where
  "hd_size h = h AND NOT 3"

definition hd_allocated :: "int \<Rightarrow> bool" where
  "hd_allocated h = (h AND 1 \<noteq> 0)"

definition hd_prev_allocated :: "int \<Rightarrow> bool" where
  "hd_prev_allocated h = (h AND 2 \<noteq> 0)"

section \<open>balloc\<close>

text \<open>
  Line 89: \<^verbatim>\<open>int blockSize = ((size + sizeof(blockHeader) + 7) / 8) * 8;\<close>
  The sum is computed in \<^verbatim>\<open>size_t\<close>, where it cannot wrap for \<open>1 \<le> size < 2^31\<close>, and the
  result is converted back to \<^verbatim>\<open>int\<close>.
\<close>

definition block_size :: "int \<Rightarrow> int" where
  "block_size sz = wrap32 ((sz + sizeof_blockHeader + 7) div 8 * 8)"

text \<open>
  Lines 91-111, the best-fit scan. \<open>bestFit = 0\<close> is the \<^verbatim>\<open>NULL\<close> of the source. The loop
  has no bound of its own: it ends when it reads the end mark \<open>1\<close>.
\<close>

partial_function (option) balloc_scan :: "heap \<Rightarrow> int \<Rightarrow> addr \<Rightarrow> addr \<Rightarrow> addr outcome option" where
  "balloc_scan s blockSize current bestFit =
     (case load s current of
        None \<Rightarrow> Some Fault
      | Some size_status \<Rightarrow>
          if size_status = 1 then Some (Done bestFit)
          else
            let currentSize = push_bit 2 (drop_bit 2 size_status) in
            if size_status AND 1 = 0 \<and> currentSize \<ge> blockSize then
              (case (if bestFit = 0 then Some True
                     else map_option (\<lambda>b. currentSize < push_bit 2 (drop_bit 2 b)) (load s bestFit)) of
                 None \<Rightarrow> Some Fault
               | Some better \<Rightarrow>
                   if better then
                     (if currentSize = blockSize then Some (Done current)
                      else balloc_scan s blockSize (current + currentSize) current)
                   else balloc_scan s blockSize (current + currentSize) bestFit)
            else balloc_scan s blockSize (current + currentSize) bestFit)"

text \<open>
  Lines 118-148: placing the request in the chosen block. The comparison of line 120 is
  between an \<^verbatim>\<open>int\<close> and a \<^verbatim>\<open>size_t\<close>, hence unsigned.
\<close>

definition balloc_place :: "heap \<Rightarrow> int \<Rightarrow> addr \<Rightarrow> (addr \<times> heap) option" where
  "balloc_place s blockSize bestFit =
     do {
       b \<leftarrow> load s bestFit;
       let remainder = wrap32 (push_bit 2 (drop_bit 2 b) - blockSize);
       if to_size_t remainder \<ge> sizeof_blockHeader * 2 + 8 then
         do {
           s1 \<leftarrow> store s bestFit (blockSize OR (b AND 3) OR 1);
           let newBlock = bestFit + blockSize;
           s2 \<leftarrow> store s1 newBlock (remainder OR 2);
           let nextBlock = newBlock + remainder;
           n \<leftarrow> load s2 nextBlock;
           s3 \<leftarrow> (if n \<noteq> 1 then store s2 nextBlock (n OR 2) else Some s2);
           Some (bestFit + sizeof_blockHeader, s3)
         }
       else
         do {
           s1 \<leftarrow> store s bestFit (b OR 1);
           b1 \<leftarrow> load s1 bestFit;
           let nextBlock = bestFit + push_bit 2 (drop_bit 2 b1);
           n \<leftarrow> load s1 nextBlock;
           s2 \<leftarrow> (if n \<noteq> 1 then store s1 nextBlock (n OR 2) else Some s1);
           Some (bestFit + sizeof_blockHeader, s2)
         }
     }"

text \<open>The result is the returned pointer (\<open>0\<close> for \<^verbatim>\<open>NULL\<close>) and the state left behind.\<close>

definition balloc :: "int \<Rightarrow> heap \<Rightarrow> (addr \<times> heap) outcome option" where
  "balloc sz s =
     (if sz < 1 then Some (Done (0, s))
      else
        (case balloc_scan s (block_size sz) (heap_start s) 0 of
           None \<Rightarrow> None
         | Some Fault \<Rightarrow> Some Fault
         | Some (Done bestFit) \<Rightarrow>
             if bestFit = 0 then Some (Done (0, s))
             else Some (run (balloc_place s (block_size sz) bestFit))))"

section \<open>bfree\<close>

text \<open>
  Lines 163-189. The four tests of line 165 are joined by \<^verbatim>\<open>||\<close>, which evaluates them in
  order and stops at the first that holds. Addresses are integers here, so the two range
  tests compare the integers \<open>heap_start + 4\<close> and \<open>heap_start + alloc_size\<close> with \<open>ptr\<close>,
  where line 165 compares pointers of 64 bits. The two agree as long as no operand leaves
  the values of a pointer, which \<open>pointers_fit\<close> below says; they differ, for one, when
  \<^verbatim>\<open>heap_start\<close> is \<^verbatim>\<open>NULL\<close> and \<^verbatim>\<open>alloc_size\<close> is negative, where the upper bound of the
  source is an address near \<open>2 ^ 64\<close>.
\<close>

definition bfree :: "addr \<Rightarrow> heap \<Rightarrow> (int \<times> heap) outcome" where
  "bfree ptr s =
     (if ptr = 0 then Done (- 1, s)
      else if ptr mod 8 \<noteq> 0 then Done (- 1, s)
      else if ptr < heap_start s + sizeof_blockHeader then Done (- 1, s)
      else if ptr \<ge> heap_start s + alloc_size s then Done (- 1, s)
      else
        run (do {
          let block = ptr - sizeof_blockHeader;
          b \<leftarrow> load s block;
          if b AND 1 = 0 then Some (- 1, s)
          else
            do {
              s1 \<leftarrow> store s block (b AND NOT 1);
              b1 \<leftarrow> load s1 block;
              let nextBlock = block + (b1 AND NOT 3);
              n \<leftarrow> load s1 nextBlock;
              s2 \<leftarrow> (if n \<noteq> 1 then store s1 nextBlock (n AND NOT 2) else Some s1);
              Some (0, s2)
            }
        }))"

text \<open>
  The argument and the two bounds of line 165 are values of a 64-bit pointer, and the size
  added to \<^verbatim>\<open>heap_start\<close> is not negative. A successful \<^verbatim>\<open>init_heap\<close> leaves such a state:
  \<^verbatim>\<open>heap_start\<close> lies in a mapping of the process and \<^verbatim>\<open>alloc_size\<close> is its length less 8.
\<close>

definition pointers_fit :: "addr \<Rightarrow> heap \<Rightarrow> bool" where
  "pointers_fit ptr s =
     (0 \<le> ptr \<and> ptr < 2 ^ 64 \<and> 0 \<le> heap_start s \<and> 0 \<le> alloc_size s \<and>
      heap_start s + sizeof_blockHeader < 2 ^ 64 \<and> heap_start s + alloc_size s < 2 ^ 64)"

section \<open>coalesce\<close>

text \<open>Lines 208-212, the inner loop that absorbs the free blocks after \<open>current\<close>.\<close>

partial_function (option) coalesce_inner :: "heap \<Rightarrow> addr \<Rightarrow> addr \<Rightarrow> (heap \<times> addr) outcome option" where
  "coalesce_inner s current nextBlock =
     (case load s nextBlock of
        None \<Rightarrow> Some Fault
      | Some n \<Rightarrow>
          if n \<noteq> 1 \<and> n AND 1 = 0 then
            (case load s current of
               None \<Rightarrow> Some Fault
             | Some c \<Rightarrow>
                 (case store s current (wrap32 (c + (n AND NOT 3))) of
                    None \<Rightarrow> Some Fault
                  | Some s1 \<Rightarrow>
                      (case load s1 current of
                         None \<Rightarrow> Some Fault
                       | Some c1 \<Rightarrow> coalesce_inner s1 current (current + (c1 AND NOT 3)))))
          else Some (Done (s, nextBlock)))"

text \<open>Lines 202-222, the outer loop.\<close>

partial_function (option) coalesce_loop :: "heap \<Rightarrow> addr \<Rightarrow> heap outcome option" where
  "coalesce_loop s current =
     (case load s current of
        None \<Rightarrow> Some Fault
      | Some c \<Rightarrow>
          if c = 1 then Some (Done s)
          else if c AND 1 = 0 then
            (case coalesce_inner s current (current + (c AND NOT 3)) of
               None \<Rightarrow> None
             | Some Fault \<Rightarrow> Some Fault
             | Some (Done (s1, nextBlock)) \<Rightarrow>
                 (case load s1 nextBlock of
                    None \<Rightarrow> Some Fault
                  | Some n \<Rightarrow>
                      (case (if n \<noteq> 1 then store s1 nextBlock (n OR 2) else Some s1) of
                         None \<Rightarrow> Some Fault
                       | Some s2 \<Rightarrow>
                           (case load s2 current of
                              None \<Rightarrow> Some Fault
                            | Some c2 \<Rightarrow> coalesce_loop s2 (current + (c2 AND NOT 3))))))
          else coalesce_loop s (current + (c AND NOT 3)))"

definition coalesce :: "heap \<Rightarrow> (int \<times> heap) outcome option" where
  "coalesce s =
     (case coalesce_loop s (heap_start s) of
        None \<Rightarrow> None
      | Some Fault \<Rightarrow> Some Fault
      | Some (Done s') \<Rightarrow> Some (Done (0, s')))"

section \<open>init_heap\<close>

text \<open>
  What the operating system answers: the page size, the descriptor returned by
  \<^verbatim>\<open>open("/dev/zero")\<close> (\<open>-1\<close> on failure) and the address \<^verbatim>\<open>mmap\<close> chooses
  (\<open>None\<close> for \<^verbatim>\<open>MAP_FAILED\<close>).
\<close>

record os_env =
  pagesize :: int
  open_result :: int
  mmap_result :: "addr option"

text \<open>
  A private mapping of \<^verbatim>\<open>/dev/zero\<close>: \<open>len\<close> bytes of zeros at the chosen address. A
  length that is not positive (as a \<^verbatim>\<open>size_t\<close>: zero, or beyond any address space) is
  refused.
\<close>

definition mmap_zero :: "os_env \<Rightarrow> int \<Rightarrow> heap \<Rightarrow> (addr \<times> heap) option" where
  "mmap_zero os len s =
     (case mmap_result os of
        None \<Rightarrow> None
      | Some p \<Rightarrow>
          if len \<le> 0 then None
          else Some (p, s\<lparr>mem := (\<lambda>a. if p \<le> a \<and> a < p + len \<and> (a - p) mod 4 = 0
                                       then Some 0 else mem s a)\<rparr>))"

definition init_heap :: "os_env \<Rightarrow> int \<Rightarrow> heap \<Rightarrow> (int \<times> heap) outcome" where
  "init_heap os sizeOfRegion s =
     (if allocated_once s then Done (- 1, s)
      else if sizeOfRegion \<le> 0 then Done (- 1, s)
      else
        let padsize = sizeOfRegion mod pagesize os;
            padsize = (pagesize os - padsize) mod pagesize os;
            s1 = s\<lparr>alloc_size := wrap32 (sizeOfRegion + padsize)\<rparr>
        in
          if open_result os = - 1 then Done (- 1, s1)
          else
            (case mmap_zero os (alloc_size s1) s1 of
               None \<Rightarrow> Done (- 1, s1\<lparr>allocated_once := False\<rparr>)
             | Some (mmap_ptr, s2) \<Rightarrow>
                 run (do {
                   let s3 = s2\<lparr>allocated_once := True\<rparr>;
                   let s4 = s3\<lparr>alloc_size := wrap32 (alloc_size s3 - 8)\<rparr>;
                   let s5 = s4\<lparr>heap_start := mmap_ptr + sizeof_blockHeader\<rparr>;
                   s6 \<leftarrow> store s5 (heap_start s5 + alloc_size s5) 1;
                   s7 \<leftarrow> store s6 (heap_start s6) (alloc_size s6);
                   h \<leftarrow> load s7 (heap_start s7);
                   s8 \<leftarrow> store s7 (heap_start s7) (wrap32 (h + 2));
                   s9 \<leftarrow> store s8 (heap_start s8 + alloc_size s8 - 4) (alloc_size s8);
                   Some (0, s9)
                 })))"

section \<open>disp_heap\<close>

text \<open>
  The dump walks the blocks exactly as the other operations do. The model returns what it
  prints: one row per block and the two totals.
\<close>

record row =
  r_no :: int
  r_used :: bool
  r_prev_used :: bool
  r_begin :: addr
  r_end :: addr
  r_size :: int

record report =
  rows :: "row list"
  used_size :: int
  free_size :: int

partial_function (option) disp_loop :: "heap \<Rightarrow> addr \<Rightarrow> int \<Rightarrow> report \<Rightarrow> report outcome option" where
  "disp_loop s current counter rep =
     (case load s current of
        None \<Rightarrow> Some Fault
      | Some size_status \<Rightarrow>
          if size_status = 1 then Some (Done rep)
          else
            let t_begin = current;
                t_size = size_status;
                is_used = (t_size AND 1 \<noteq> 0);
                t_size = (if is_used then t_size - 1 else t_size);
                p_used = (t_size AND 2 \<noteq> 0);
                t_size = (if p_used then t_size - 2 else t_size);
                rep1 = (if is_used then rep\<lparr>used_size := wrap32 (used_size rep + t_size)\<rparr>
                        else rep\<lparr>free_size := wrap32 (free_size rep + t_size)\<rparr>);
                t_end = t_begin + t_size - 1;
                rep2 = rep1\<lparr>rows := rows rep1 @
                         [\<lparr>r_no = counter, r_used = is_used, r_prev_used = p_used,
                           r_begin = t_begin, r_end = t_end, r_size = t_size\<rparr>]\<rparr>
            in disp_loop s (current + t_size) (wrap32 (counter + 1)) rep2)"

definition disp_heap :: "heap \<Rightarrow> report outcome option" where
  "disp_heap s = disp_loop s (heap_start s) 1 \<lparr>rows = [], used_size = 0, free_size = 0\<rparr>"

section \<open>Initialised heaps\<close>

text \<open>
  What the model asks of the operating system: \<^verbatim>\<open>getpagesize()\<close> is an \<^verbatim>\<open>int\<close>, a multiple
  of 8 and at least 16, and \<^verbatim>\<open>mmap\<close> never hands out the null address.
\<close>

definition os_ok :: "os_env \<Rightarrow> bool" where
  "os_ok os = (16 \<le> pagesize os \<and> pagesize os < 2147483648 \<and> pagesize os mod 8 = 0 \<and>
               (case mmap_result os of None \<Rightarrow> True | Some p \<Rightarrow> 0 < p))"

text \<open>
  A process in which no \<^verbatim>\<open>init_heap\<close> has succeeded yet: \<^verbatim>\<open>heap_start\<close> is still
  \<^verbatim>\<open>NULL\<close> and nothing is mapped. (A failed \<^verbatim>\<open>init_heap\<close> may have changed
  \<^verbatim>\<open>alloc_size\<close>, line 266.)
\<close>

definition pre_init :: "heap \<Rightarrow> bool" where
  "pre_init s = (heap_start s = 0 \<and> \<not> allocated_once s \<and> mem s = (\<lambda>a. None))"

text \<open>
  Lines 263-266: the requested size rounded up to a multiple of the page size. This is the
  length of the mapping; \<^verbatim>\<open>alloc_size\<close> ends up 8 less (line 284).
\<close>

definition padded_size :: "os_env \<Rightarrow> int \<Rightarrow> int" where
  "padded_size os n = n + (pagesize os - n mod pagesize os) mod pagesize os"

text \<open>
  The states a program can be in after a successful \<^verbatim>\<open>init_heap(m)\<close> under \<open>os\<close> and any
  number of calls that returned. The arguments of \<^verbatim>\<open>init_heap\<close> and \<^verbatim>\<open>balloc\<close> are
  \<^verbatim>\<open>int\<close>s, hence below \<open>2^31\<close>.
\<close>

inductive reachable :: "os_env \<Rightarrow> int \<Rightarrow> heap \<Rightarrow> bool" for os :: os_env and m :: int where
  init: "os_ok os \<Longrightarrow> pre_init s0 \<Longrightarrow> m < 2147483648 \<Longrightarrow> init_heap os m s0 = Done (0, s)
         \<Longrightarrow> reachable os m s"
| init_again: "reachable os m s \<Longrightarrow> init_heap os' n s = Done (r, s') \<Longrightarrow> reachable os m s'"
| balloc: "reachable os m s \<Longrightarrow> n < 2147483648 \<Longrightarrow> balloc n s = Some (Done (p, s'))
         \<Longrightarrow> reachable os m s'"
| bfree: "reachable os m s \<Longrightarrow> bfree p s = Done (r, s') \<Longrightarrow> reachable os m s'"
| coalesce: "reachable os m s \<Longrightarrow> coalesce s = Some (Done (r, s')) \<Longrightarrow> reachable os m s'"

text \<open>
  Two readings of the table \<^verbatim>\<open>disp_heap\<close> prints. \<open>tiles a rs e\<close>: the rows cover
  \<open>[a, e)\<close> in order, each block starting where the one before it ended. \<open>no_adjacent_free\<close>:
  no two consecutive rows are both free.
\<close>

fun tiles :: "addr \<Rightarrow> row list \<Rightarrow> addr \<Rightarrow> bool" where
  "tiles a [] e = (a = e)"
| "tiles a (r # rs) e =
     (r_begin r = a \<and> 0 < r_size r \<and> r_end r = a + r_size r - 1 \<and> tiles (a + r_size r) rs e)"

fun no_adjacent_free :: "row list \<Rightarrow> bool" where
  "no_adjacent_free (r1 # r2 # rs) = ((r_used r1 \<or> r_used r2) \<and> no_adjacent_free (r2 # rs))"
| "no_adjacent_free rs = True"

section \<open>A concrete run\<close>

text \<open>
  A 4096-byte page mapped at address 65536. The states below are the ones the program goes
  through in the runs that follow; each is checked against the model by evaluation.
\<close>

definition os1 :: os_env where
  "os1 = \<lparr>pagesize = 4096, open_result = 3, mmap_result = Some 65536\<rparr>"

definition st0 :: heap where
  "st0 = \<lparr>heap_start = 65540, alloc_size = 4088, allocated_once = True,
     mem = (\<lambda>a. if 65536 \<le> a \<and> a < 69632 \<and> (a - 65536) mod 4 = 0 then Some 0 else None)
             (69628 \<mapsto> 1, 65540 \<mapsto> 4090, 69624 \<mapsto> 4088)\<rparr>"

definition st1 :: heap where
  "st1 = st0\<lparr>mem := (mem st0)(65540 \<mapsto> 107, 65644 \<mapsto> 3986)\<rparr>"

definition st2 :: heap where
  "st2 = st1\<lparr>mem := (mem st1)(65644 \<mapsto> 107, 65748 \<mapsto> 3882)\<rparr>"

definition st3 :: heap where
  "st3 = st2\<lparr>mem := (mem st2)(65540 \<mapsto> 106, 65644 \<mapsto> 105)\<rparr>"

definition st4 :: heap where
  "st4 = st3\<lparr>mem := (mem st3)(65540 \<mapsto> 19, 65556 \<mapsto> 90, 65644 \<mapsto> 107)\<rparr>"

definition st5 :: heap where
  "st5 = st2\<lparr>mem := (mem st2)(65748 \<mapsto> 107, 65852 \<mapsto> 3778)\<rparr>"

definition st6 :: heap where
  "st6 = st5\<lparr>mem := (mem st5)(65540 \<mapsto> 106, 65644 \<mapsto> 105)\<rparr>"

definition st7 :: heap where
  "st7 = st6\<lparr>mem := (mem st6)(65644 \<mapsto> 104, 65748 \<mapsto> 105)\<rparr>"

definition st8 :: heap where
  "st8 = st7\<lparr>mem := (mem st7)(65540 \<mapsto> 210, 65748 \<mapsto> 107)\<rparr>"

text \<open>
  Two states in which the program itself has written into the payload of the block it was
  given at 65544: the word at 65548 holds 1048577 in the first and 17 in the second.
\<close>

definition st_far :: heap where
  "st_far = st1\<lparr>mem := (mem st1)(65548 \<mapsto> 1048577)\<rparr>"

definition st_near :: heap where
  "st_near = st1\<lparr>mem := (mem st1)(65548 \<mapsto> 17)\<rparr>"

text \<open>
  The footer of the block whose header is at \<open>a\<close>: its last word, which
  \<^verbatim>\<open>init_heap\<close> (lines 301-303) fills with the size of the block.
\<close>

definition footer_matches :: "heap \<Rightarrow> addr \<Rightarrow> bool" where
  "footer_matches s a =
     (case load s a of
        None \<Rightarrow> False
      | Some h \<Rightarrow> load s (a + (h AND NOT 3) - sizeof_blockHeader) = Some (h AND NOT 3))"

text \<open>What \<^verbatim>\<open>disp_heap\<close> prints in \<open>st0\<close> and in \<open>st3\<close>.\<close>

definition rep0 :: report where
  "rep0 = \<lparr>rows = [\<lparr>r_no = 1, r_used = False, r_prev_used = True,
                      r_begin = 65540, r_end = 69627, r_size = 4088\<rparr>],
            used_size = 0, free_size = 4088\<rparr>"

definition rep3 :: report where
  "rep3 = \<lparr>rows = [\<lparr>r_no = 1, r_used = False, r_prev_used = True,
                      r_begin = 65540, r_end = 65643, r_size = 104\<rparr>,
                    \<lparr>r_no = 2, r_used = True, r_prev_used = False,
                      r_begin = 65644, r_end = 65747, r_size = 104\<rparr>,
                    \<lparr>r_no = 3, r_used = False, r_prev_used = True,
                      r_begin = 65748, r_end = 69627, r_size = 3880\<rparr>],
            used_size = 104, free_size = 3984\<rparr>"

section \<open>Notions used in the proofs\<close>

text \<open>
  \<open>chain m a hs e\<close>: in memory \<open>m\<close>, the words \<open>hs\<close> are the headers met when walking from
  \<open>a\<close> to \<open>e\<close>, each of positive size. \<open>blocks_at\<close> pairs every header with its address,
  \<open>rows_at\<close> gives the rows \<^verbatim>\<open>disp_heap\<close> prints for them, \<open>total\<close> is the sum of the sizes.
\<close>

fun chain :: "(addr \<Rightarrow> int option) \<Rightarrow> addr \<Rightarrow> int list \<Rightarrow> addr \<Rightarrow> bool" where
  "chain m a [] e = (a = e)"
| "chain m a (h # hs) e = (m a = Some h \<and> 0 < hd_size h \<and> chain m (a + hd_size h) hs e)"

fun blocks_at :: "addr \<Rightarrow> int list \<Rightarrow> (addr \<times> int) list" where
  "blocks_at a [] = []"
| "blocks_at a (h # hs) = (a, h) # blocks_at (a + hd_size h) hs"

fun rows_at :: "addr \<Rightarrow> int \<Rightarrow> int list \<Rightarrow> row list" where
  "rows_at a k [] = []"
| "rows_at a k (h # hs) =
     \<lparr>r_no = k, r_used = hd_allocated h, r_prev_used = hd_prev_allocated h,
      r_begin = a, r_end = a + hd_size h - 1, r_size = hd_size h\<rparr>
     # rows_at (a + hd_size h) (wrap32 (k + 1)) hs"

definition total :: "int list \<Rightarrow> int" where
  "total hs = sum_list (map hd_size hs)"

text \<open>
  The scan of \<^verbatim>\<open>balloc\<close> as a function of the headers it walks over, the incumbent given by
  its address and size; and what it is to be the best fit for a block size \<open>B\<close> among a list
  of blocks.
\<close>

fun scan_list :: "int \<Rightarrow> addr \<Rightarrow> int list \<Rightarrow> addr \<Rightarrow> int \<Rightarrow> addr" where
  "scan_list B a [] best bs = best"
| "scan_list B a (h # hs) best bs =
     (if \<not> hd_allocated h \<and> B \<le> hd_size h \<and> (best = 0 \<or> hd_size h < bs)
      then (if hd_size h = B then a else scan_list B (a + hd_size h) hs a (hd_size h))
      else scan_list B (a + hd_size h) hs best bs)"

definition eligible :: "int \<Rightarrow> int \<Rightarrow> bool" where
  "eligible B h = (\<not> hd_allocated h \<and> B \<le> hd_size h)"

definition best_in :: "int \<Rightarrow> (addr \<times> int) list \<Rightarrow> addr \<Rightarrow> int \<Rightarrow> bool" where
  "best_in B bl r h =
     ((r, h) \<in> set bl \<and> eligible B h \<and>
      (\<forall>(x, h') \<in> set bl. eligible B h' \<longrightarrow>
          hd_size h \<le> hd_size h' \<and> (hd_size h' = hd_size h \<longrightarrow> r \<le> x)))"

text \<open>
  The invariant of an initialised heap: exactly the words of the region are mapped, the end
  mark is in place, and the headers form a chain from \<^verbatim>\<open>heap_start\<close> to it. \<open>same_shape\<close>
  relates two states that differ in the contents of memory only.
\<close>

definition mapped_region :: "heap \<Rightarrow> bool" where
  "mapped_region s =
     (\<forall>a. (mem s a \<noteq> None) =
          (heap_start s - 4 \<le> a \<and> a < heap_start s + alloc_size s + 4 \<and> (a - heap_start s) mod 4 = 0))"

definition heap_ok :: "heap \<Rightarrow> bool" where
  "heap_ok s =
     (0 < heap_start s \<and> allocated_once s \<and> alloc_size s \<le> 2147483632 \<and> mapped_region s \<and>
      mem s (heap_start s + alloc_size s) = Some 1 \<and>
      (\<exists>hs. chain (mem s) (heap_start s) hs (heap_start s + alloc_size s)))"

definition same_shape :: "heap \<Rightarrow> heap \<Rightarrow> bool" where
  "same_shape s s' =
     (heap_start s' = heap_start s \<and> alloc_size s' = alloc_size s \<and>
      allocated_once s' = allocated_once s \<and> (\<forall>x. (mem s' x = None) = (mem s x = None)))"

text \<open>A store to a word that is known to be mapped.\<close>

definition poke :: "heap \<Rightarrow> addr \<Rightarrow> int \<Rightarrow> heap" where
  "poke s x v = s\<lparr>mem := (mem s)(x \<mapsto> v)\<rparr>"

text \<open>
  What a pass of \<^verbatim>\<open>coalesce\<close> leaves: after a free block comes an allocated block whose
  bit 1 is set.
\<close>

fun merged :: "int list \<Rightarrow> bool" where
  "merged (h1 # h2 # hs) = ((hd_allocated h1 \<or> (hd_allocated h2 \<and> h2 OR 2 = h2)) \<and> merged (h2 # hs))"
| "merged hs = True"

section \<open>Evaluation\<close>

lemmas machine_defs =
  load_def store_def run_def wrap32_def to_size_t_def sizeof_blockHeader_def Let_def

lemmas st_defs = st0_def st1_def st2_def st3_def st4_def st5_def st6_def st7_def st8_def

lemma init_st0: "init_heap os1 4096 initial_heap = Done (0, st0)"
  by (simp add: init_heap_def os1_def initial_heap_def mmap_zero_def machine_defs st0_def
      cong del: if_weak_cong)

lemma balloc_st0: "balloc 100 st0 = Some (Done (65544, st1))"
  apply (simp add: balloc_def)
  apply (subst balloc_scan.simps, simp add: block_size_def balloc_place_def machine_defs st_defs)+
  done

lemma balloc_st1: "balloc 100 st1 = Some (Done (65648, st2))"
  apply (simp add: balloc_def)
  apply (subst balloc_scan.simps, simp add: block_size_def balloc_place_def machine_defs st_defs)+
  done

lemma bfree_st2: "bfree 65544 st2 = Done (0, st3)"
  by (simp add: bfree_def machine_defs st_defs)

lemma balloc_st3: "balloc 8 st3 = Some (Done (65544, st4))"
  apply (simp add: balloc_def)
  apply (subst balloc_scan.simps, simp add: block_size_def balloc_place_def machine_defs st_defs)+
  done

lemma balloc_st2: "balloc 100 st2 = Some (Done (65752, st5))"
  apply (simp add: balloc_def)
  apply (subst balloc_scan.simps, simp add: block_size_def balloc_place_def machine_defs st_defs)+
  done

lemma bfree_st5: "bfree 65544 st5 = Done (0, st6)"
  by (simp add: bfree_def machine_defs st_defs)

lemma bfree_st6: "bfree 65648 st6 = Done (0, st7)"
  by (simp add: bfree_def machine_defs st_defs)

lemma coalesce_st7: "coalesce st7 = Some (Done (0, st8))"
  apply (simp add: coalesce_def)
  apply (subst coalesce_loop.simps coalesce_inner.simps, simp add: machine_defs st_defs)+
  done

lemma coalesce_st8: "coalesce st8 = Some (Done (0, st8))"
  apply (simp add: coalesce_def)
  apply (subst coalesce_loop.simps coalesce_inner.simps, simp add: machine_defs st_defs)+
  done

lemma disp_st0: "disp_heap st0 = Some (Done rep0)"
  apply (simp add: disp_heap_def)
  apply (subst disp_loop.simps, simp add: machine_defs st_defs rep0_def)+
  done

lemma disp_st3: "disp_heap st3 = Some (Done rep3)"
  apply (simp add: disp_heap_def)
  apply (subst disp_loop.simps, simp add: machine_defs st_defs rep3_def)+
  done

lemma os_ok_os1: "os_ok os1"
  by (simp add: os_ok_def os1_def)

lemma pre_init_initial: "pre_init initial_heap"
  by (simp add: pre_init_def initial_heap_def)

lemma padded_os1: "padded_size os1 4096 = 4096"
  by (simp add: padded_size_def os1_def)

lemma reachable_st0: "reachable os1 4096 st0"
  using os_ok_os1 pre_init_initial _ init_st0 by (rule reachable.init) simp

lemma reachable_st1: "reachable os1 4096 st1"
  using reachable_st0 _ balloc_st0 by (rule reachable.balloc) simp

lemma reachable_st2: "reachable os1 4096 st2"
  using reachable_st1 _ balloc_st1 by (rule reachable.balloc) simp

lemma reachable_st3: "reachable os1 4096 st3"
  using reachable_st2 bfree_st2 by (rule reachable.bfree)

lemma reachable_st5: "reachable os1 4096 st5"
  using reachable_st2 _ balloc_st2 by (rule reachable.balloc) simp

lemma reachable_st6: "reachable os1 4096 st6"
  using reachable_st5 bfree_st5 by (rule reachable.bfree)

lemma reachable_st7: "reachable os1 4096 st7"
  using reachable_st6 bfree_st6 by (rule reachable.bfree)

section \<open>Facts about single words\<close>

lemma wrap32_id: "- 2147483648 \<le> x \<Longrightarrow> x < 2147483648 \<Longrightarrow> wrap32 x = x"
  by (simp add: wrap32_def signed_take_bit_int_eq_self)

lemma clear_a_bit [simp]: "(b AND - 2) AND 1 = (0::int)" "((b AND - 2) AND - 3) AND 1 = (0::int)"
  by (simp_all add: and.assoc)

lemma clear_a_bit_neq_1 [simp]: "(b AND - 2) \<noteq> (1::int)"
proof
  assume "b AND - 2 = 1"
  then have "(b AND - 2) AND 1 = 1 AND (1::int)" by simp
  then show False by simp
qed

section \<open>The block size of a request\<close>

lemma block_size_exact:
  assumes "1 \<le> n" "n \<le> 2147483636"
  shows "block_size n = (n + 11) div 8 * 8"
proof -
  have "(n + 11) div 8 * 8 \<le> n + 11" by presburger
  hence "(n + 11) div 8 * 8 < 2147483648" using assms by linarith
  moreover have "0 \<le> (n + 11) div 8 * 8" using assms by simp
  ultimately show ?thesis by (simp add: block_size_def sizeof_blockHeader_def wrap32_id)
qed

text \<open>
  As long as the rounded sum fits a 32-bit \<^verbatim>\<open>int\<close>, that is for \<open>1 \<le> n \<le> 2147483636\<close>,
  line 89 computes the least multiple of 8 that is at least \<open>n\<close> plus the 4 bytes of the
  header.
\<close>

lemma block_size_in_range:
  assumes "1 \<le> n" "n \<le> 2147483636"
  shows "block_size n mod 8 = 0 \<and> n + sizeof_blockHeader \<le> block_size n \<and>
         (\<forall>m. m mod 8 = 0 \<and> n + sizeof_blockHeader \<le> m \<longrightarrow> block_size n \<le> m)"
proof -
  have e: "block_size n = (n + 11) div 8 * 8" using assms by (rule block_size_exact)
  have "(n + 11) div 8 * 8 = n + 11 - (n + 11) mod 8"
    by (simp add: algebra_simps minus_mod_eq_mult_div)
  then show ?thesis unfolding e sizeof_blockHeader_def
    by (auto; presburger)
qed

lemma block_size_int_max: "block_size 2147483647 = - 2147483640"
  by (simp add: block_size_def wrap32_def sizeof_blockHeader_def)

lemma balloc_scan_int_max: "balloc_scan st0 (- 2147483640) 65540 0 = Some (Done 65540)"
  apply (subst balloc_scan.simps, simp add: machine_defs st_defs)
  apply (subst balloc_scan.simps, simp add: machine_defs st_defs)
  done

lemma balloc_place_int_max: "balloc_place st0 (- 2147483640) 65540 = None"
  by (simp add: balloc_place_def machine_defs st_defs)

text \<open>
  \<^bold>\<open>C7\<close>. The call \<^verbatim>\<open>balloc(2147483647)\<close>, a request of at least one byte, on the heap that
  \<^verbatim>\<open>init_heap(4096)\<close> leaves. The least multiple of 8 that is at least \<open>2147483647 + 4\<close> is
  \<open>2147483656\<close>, which no \<^verbatim>\<open>int\<close> holds: the \<^verbatim>\<open>blockSize\<close> of line 89 is \<open>-2147483640\<close>,
  smaller than the request. Every free block passes the test of line 99 against it, so the
  scan chooses the free block of 4088 bytes at 65540 for a request of 2 GiB, and the split of
  lines 120-131 writes the header of the remainder at \<open>bestFit + blockSize\<close>, far below the
  region: the call faults, where the comment above \<^verbatim>\<open>balloc\<close> has it round up to a multiple
  of 8 and return \<^verbatim>\<open>NULL\<close> when no block can hold the request.
\<close>

theorem balloc_block_size_overflow:
  "init_heap os1 4096 initial_heap = Done (0, st0) \<and>
   block_size 2147483647 = - 2147483640 \<and>
   block_size 2147483647 < 2147483647 + sizeof_blockHeader \<and>
   balloc_scan st0 (block_size 2147483647) (heap_start st0) 0 = Some (Done 65540) \<and>
   balloc 2147483647 st0 = Some Fault"
proof -
  have h: "heap_start st0 = 65540" by (simp add: st0_def)
  have "balloc 2147483647 st0 = Some Fault"
    by (simp add: balloc_def block_size_int_max h balloc_scan_int_max balloc_place_int_max run_def)
  then show ?thesis
    by (simp add: init_st0 block_size_int_max h balloc_scan_int_max sizeof_blockHeader_def)
qed

section \<open>Failing calls of bfree\<close>

lemma bfree_fail_same: "bfree p s = Done (- 1, s') \<Longrightarrow> s' = s"
  by (auto simp: bfree_def run_def load_def store_def Let_def
      split: if_splits option.splits bind_splits)

lemma bfree_ok_D:
  assumes "bfree p s = Done (0, s')"
  shows "\<exists>b. mem s (p - 4) = Some b \<and> b AND 1 \<noteq> 0
           \<and> (\<exists>v. mem s' (p - 4) = Some v \<and> v AND 1 = 0)
           \<and> heap_start s' = heap_start s \<and> alloc_size s' = alloc_size s
           \<and> p \<noteq> 0 \<and> p mod 8 = 0 \<and> heap_start s + 4 \<le> p \<and> p < heap_start s + alloc_size s"
  using assms
  by (auto simp: bfree_def run_def load_def store_def Let_def sizeof_blockHeader_def
      split: if_splits option.splits bind_splits)

text \<open>
  \<^bold>\<open>C6\<close>. When \<^verbatim>\<open>bfree p\<close> has succeeded, leaving the state \<open>s'\<close>, a second
  \<^verbatim>\<open>bfree p\<close> returns \<open>-1\<close> and leaves \<open>s'\<close> as it is. Whenever \<^verbatim>\<open>bfree\<close> returns \<open>-1\<close>
  the state after the call is the state before it. And these calls do return \<open>-1\<close>: in
  every state, one with a null or misaligned pointer, or with a pointer whose header word
  is mapped and has its allocated bit clear; and, in a state where the bounds of line 165
  are values of a pointer (\<open>pointers_fit\<close>), one with a pointer below \<open>heap_start + 4\<close>
  or not below \<open>heap_start + alloc_size\<close>.
\<close>

theorem bfree_failure_no_mutation:
  "(bfree p s = Done (0, s') \<longrightarrow> bfree p s' = Done (- 1, s')) \<and>
   (bfree p s = Done (- 1, s') \<longrightarrow> s' = s) \<and>
   (p = 0 \<or> p mod 8 \<noteq> 0 \<or> (\<exists>b. load s (p - 4) = Some b \<and> \<not> hd_allocated b)
      \<longrightarrow> bfree p s = Done (- 1, s)) \<and>
   (pointers_fit p s \<and> (p < heap_start s + 4 \<or> heap_start s + alloc_size s \<le> p)
      \<longrightarrow> bfree p s = Done (- 1, s))"
proof (intro conjI impI)
  assume "bfree p s = Done (0, s')"
  from bfree_ok_D[OF this] obtain v where
    b: "mem s' (p - 4) = Some v" "v AND 1 = 0"
    and g: "heap_start s' = heap_start s" "alloc_size s' = alloc_size s"
      "p \<noteq> 0" "p mod 8 = 0" "heap_start s + 4 \<le> p" "p < heap_start s + alloc_size s"
    by auto
  from b g show "bfree p s' = Done (- 1, s')"
    by (auto simp: bfree_def run_def load_def Let_def sizeof_blockHeader_def)
next
  assume "bfree p s = Done (- 1, s')"
  then show "s' = s" by (rule bfree_fail_same)
next
  assume "p = 0 \<or> p mod 8 \<noteq> 0 \<or> (\<exists>b. load s (p - 4) = Some b \<and> \<not> hd_allocated b)"
  then show "bfree p s = Done (- 1, s)"
    by (auto simp: bfree_def run_def load_def Let_def sizeof_blockHeader_def hd_allocated_def)
next
  assume "pointers_fit p s \<and> (p < heap_start s + 4 \<or> heap_start s + alloc_size s \<le> p)"
  then show "bfree p s = Done (- 1, s)"
    by (auto simp: bfree_def sizeof_blockHeader_def)
qed

theorem bfree_failure_no_mutation_witness:
  "bfree 65544 st2 = Done (0, st3) \<and> bfree 65544 st3 = Done (- 1, st3) \<and>
   bfree 65545 st3 = Done (- 1, st3) \<and>
   pointers_fit 65536 st3 \<and> bfree 65536 st3 = Done (- 1, st3) \<and>
   pointers_fit 70000 st3 \<and> bfree 70000 st3 = Done (- 1, st3)"
proof -
  have f: "heap_start st3 = 65540" "alloc_size st3 = 4088" by (simp_all add: st_defs)
  have fit: "pointers_fit 65536 st3" "pointers_fit 70000 st3"
    by (simp_all add: pointers_fit_def f sizeof_blockHeader_def)
  have a: "bfree 65544 st3 = Done (- 1, st3)"
    using bfree_failure_no_mutation [of 65544 st2 st3] bfree_st2 by simp
  have b: "bfree 65545 st3 = Done (- 1, st3)"
    using bfree_failure_no_mutation [of 65545 st3 st3] by simp
  have c: "bfree 65536 st3 = Done (- 1, st3)"
    using bfree_failure_no_mutation [of 65536 st3 st3] fit by (simp add: f)
  have d: "bfree 70000 st3 = Done (- 1, st3)"
    using bfree_failure_no_mutation [of 70000 st3 st3] fit by (simp add: f)
  from a b c d fit bfree_st2 show ?thesis by simp
qed

section \<open>Pointers bfree accepts\<close>

text \<open>
  \<^bold>\<open>C9\<close>, as the code has it. \<^verbatim>\<open>bfree\<close> tests only that the pointer is not null, is a
  multiple of 8, lies in \<open>[heap_start + 4, heap_start + alloc_size)\<close> and that the word
  right before it has bit 0 set. For every such pointer, whether or not \<^verbatim>\<open>balloc\<close> ever
  returned it, the call returns 0 and changes the state, provided the word at the position
  the code takes for the next header (the word before the pointer plus its masked size) is
  mapped memory.
\<close>

theorem bfree_unchecked_pointer:
  assumes "p \<noteq> 0" "p mod 8 = 0" "heap_start s + sizeof_blockHeader \<le> p"
    and "p < heap_start s + alloc_size s"
    and "load s (p - sizeof_blockHeader) = Some b" "hd_allocated b"
    and "load s (p - sizeof_blockHeader + hd_size b) \<noteq> None"
  shows "\<exists>s'. bfree p s = Done (0, s') \<and> s' \<noteq> s"
proof -
  define s1 where "s1 = s\<lparr>mem := (mem s)(p - 4 \<mapsto> b AND - 2)\<rparr>"
  define nb where "nb = p - 4 + (b AND - 4)"
  have sz: "(b AND - 2) AND - 4 = b AND - 4" by (simp add: and.assoc)
  have b1: "b AND 1 \<noteq> 0" using assms(6) by (simp add: hd_allocated_def)
  have ne: "b AND - 2 \<noteq> b" "(b AND - 2) AND - 3 \<noteq> b"
    using b1 clear_a_bit[of b] by (auto simp del: clear_a_bit)
  have mb: "mem s (p - 4) = Some b" using assms(5) by (simp add: machine_defs)
  from assms(7) have "mem s1 nb \<noteq> None"
    by (auto simp: s1_def nb_def machine_defs hd_size_def)
  then obtain n where n: "mem s1 nb = Some n" by blast
  define s2 where "s2 = (if n \<noteq> 1 then s1\<lparr>mem := (mem s1)(nb \<mapsto> n AND - 3)\<rparr> else s1)"
  have m1: "mem s1 (p - 4) = Some (b AND - 2)" by (simp add: s1_def)
  have n': "mem s1 (p - 4 + (b AND - 4)) = Some n" using n by (simp add: nb_def)
  have r: "bfree p s = Done (0, s2)"
    using assms(1-4) mb b1
    by (simp add: bfree_def machine_defs sz s1_def [symmetric] m1 n' s2_def nb_def)
  have "mem s2 (p - 4) = Some (b AND - 2) \<or> mem s2 (p - 4) = Some ((b AND - 2) AND - 3)"
    using n by (auto simp: s2_def s1_def split: if_splits)
  with mb ne have "mem s2 \<noteq> mem s" by auto
  hence "s2 \<noteq> s" by auto
  with r show ?thesis by blast
qed

text \<open>
  The pointer 65552 lies inside the payload of the allocated block at 65540 and was never
  returned by \<^verbatim>\<open>balloc\<close>; the word before it holds 17.
\<close>

theorem bfree_unchecked_pointer_witness:
  "load st_near 65548 = Some 17 \<and> (\<exists>s'. bfree 65552 st_near = Done (0, s') \<and> s' \<noteq> st_near)"
  using bfree_unchecked_pointer [of 65552 st_near 17]
  by (simp add: st_near_def st_defs machine_defs hd_allocated_def hd_size_def)

text \<open>
  Without the proviso the call need not return: with 1048577 in the word before the pointer
  every test of \<^verbatim>\<open>bfree\<close> passes, and line 182 then reads a header one megabyte above
  the block, outside the mapped page.
\<close>

theorem bfree_out_of_bounds_successor:
  "(65552::int) mod 8 = 0 \<and> heap_start st_far + sizeof_blockHeader \<le> 65552 \<and>
   65552 < heap_start st_far + alloc_size st_far \<and>
   load st_far (65552 - sizeof_blockHeader) = Some 1048577 \<and> hd_allocated 1048577 \<and>
   bfree 65552 st_far = Fault"
  by (simp add: st_far_def st_defs machine_defs hd_allocated_def bfree_def)

section \<open>Calls before init_heap\<close>

text \<open>
  \<^bold>\<open>C10\<close>. While \<^verbatim>\<open>heap_start\<close> is \<^verbatim>\<open>NULL\<close> (nothing is mapped at address 0), the first
  thing the scan of \<^verbatim>\<open>balloc\<close> does, for every request \<open>n \<ge> 1\<close> that reaches the scan, is
  to read through \<^verbatim>\<open>heap_start\<close>, and so does \<^verbatim>\<open>coalesce\<close>: neither returns an error
  value, both fault.
\<close>

theorem null_heap_start_faults:
  assumes "heap_start s = 0" "mem s 0 = None"
  shows "(\<forall>n. 1 \<le> n \<longrightarrow> balloc n s = Some Fault) \<and> coalesce s = Some Fault"
  using assms
  by (simp add: balloc_def coalesce_def balloc_scan.simps [of s _ 0] coalesce_loop.simps [of s 0] load_def)

text \<open>The state before any call, also the state a refused \<^verbatim>\<open>init_heap(0)\<close> leaves.\<close>

theorem null_heap_start_faults_witness:
  "init_heap os1 0 initial_heap = Done (- 1, initial_heap) \<and>
   balloc 1 initial_heap = Some Fault \<and> coalesce initial_heap = Some Fault"
  using null_heap_start_faults [of initial_heap]
  by (simp add: initial_heap_def init_heap_def)

section \<open>Footers and the bit of the previous block\<close>

text \<open>
  \<^bold>\<open>C2\<close>, evaluated. No operation but \<^verbatim>\<open>init_heap\<close> writes a footer. After
  \<^verbatim>\<open>init_heap(4096); balloc(100)\<close> the free block at 65644 has size 3984 and its last word
  still holds 4088. After a further \<^verbatim>\<open>balloc(100)\<close> and \<^verbatim>\<open>bfree\<close> of the first block, the
  freed block at 65540 has size 104 and its last word holds 0. After three allocations, two
  frees and \<^verbatim>\<open>coalesce\<close>, the merged block at 65540 has size 208 and its last word holds 0.
\<close>

theorem footers_not_maintained:
  "init_heap os1 4096 initial_heap = Done (0, st0) \<and>
   balloc 100 st0 = Some (Done (65544, st1)) \<and>
   load st1 65644 = Some 3986 \<and> \<not> hd_allocated 3986 \<and> hd_size 3986 = 3984 \<and>
   load st1 (65644 + 3984 - 4) = Some 4088 \<and> \<not> footer_matches st1 65644 \<and>
   balloc 100 st1 = Some (Done (65648, st2)) \<and>
   bfree 65544 st2 = Done (0, st3) \<and>
   load st3 65540 = Some 106 \<and> \<not> hd_allocated 106 \<and> hd_size 106 = 104 \<and>
   load st3 (65540 + 104 - 4) = Some 0 \<and> \<not> footer_matches st3 65540 \<and>
   balloc 100 st2 = Some (Done (65752, st5)) \<and>
   bfree 65544 st5 = Done (0, st6) \<and> bfree 65648 st6 = Done (0, st7) \<and>
   coalesce st7 = Some (Done (0, st8)) \<and>
   load st8 65540 = Some 210 \<and> \<not> hd_allocated 210 \<and> hd_size 210 = 208 \<and>
   load st8 (65540 + 208 - 4) = Some 0 \<and> \<not> footer_matches st8 65540"
  by (intro conjI;
      (rule init_st0 balloc_st0 balloc_st1 bfree_st2 balloc_st2 bfree_st5 bfree_st6 coalesce_st7
       | simp add: footer_matches_def hd_allocated_def hd_size_def st_defs machine_defs))

text \<open>
  \<^bold>\<open>C3\<close>, evaluated. \<^verbatim>\<open>balloc(8)\<close> splits the free block of 104 bytes at 65540 into an
  allocated block of 16 bytes and a free block of 88 bytes at 65556. The block after it, at
  65644, is allocated; its header goes from 105 to 107: line 132 sets bit 1 although the
  block before it is now free.
\<close>

theorem split_sets_prev_allocated_of_successor:
  "init_heap os1 4096 initial_heap = Done (0, st0) \<and>
   balloc 100 st0 = Some (Done (65544, st1)) \<and>
   balloc 100 st1 = Some (Done (65648, st2)) \<and>
   bfree 65544 st2 = Done (0, st3) \<and>
   load st3 65540 = Some 106 \<and> load st3 65644 = Some 105 \<and>
   balloc 8 st3 = Some (Done (65544, st4)) \<and>
   load st4 65540 = Some 19 \<and> hd_size 19 = 16 \<and>
   load st4 (65540 + 16) = Some 90 \<and> \<not> hd_allocated 90 \<and> hd_size 90 = 88 \<and>
   load st4 (65540 + 16 + 88) = Some 107 \<and> hd_prev_allocated 107"
  by (intro conjI;
      (rule init_st0 balloc_st0 balloc_st1 bfree_st2 balloc_st3
       | simp add: hd_allocated_def hd_prev_allocated_def hd_size_def st_defs machine_defs))

text \<open>
  \<^bold>\<open>C4\<close>, evaluated. \<^verbatim>\<open>coalesce\<close> merges the free blocks at 65540 and 65644 into one free
  block of 208 bytes. The block after the run, at 65748, is allocated; its header goes from
  105 to 107: line 217 sets bit 1 although the block before it is free.
\<close>

theorem coalesce_sets_prev_allocated_of_successor:
  "init_heap os1 4096 initial_heap = Done (0, st0) \<and>
   balloc 100 st0 = Some (Done (65544, st1)) \<and>
   balloc 100 st1 = Some (Done (65648, st2)) \<and>
   balloc 100 st2 = Some (Done (65752, st5)) \<and>
   bfree 65544 st5 = Done (0, st6) \<and> bfree 65648 st6 = Done (0, st7) \<and>
   load st7 65540 = Some 106 \<and> load st7 65644 = Some 104 \<and> load st7 65748 = Some 105 \<and>
   coalesce st7 = Some (Done (0, st8)) \<and>
   load st8 65540 = Some 210 \<and> \<not> hd_allocated 210 \<and> hd_size 210 = 208 \<and>
   load st8 (65540 + 208) = Some 107 \<and> hd_prev_allocated 107"
  by (intro conjI;
      (rule init_st0 balloc_st0 balloc_st1 balloc_st2 bfree_st5 bfree_st6 coalesce_st7
       | simp add: hd_allocated_def hd_prev_allocated_def hd_size_def st_defs machine_defs))

section \<open>Header words\<close>

lemma neg4_mask: "(- 4::int) = NOT (mask 2)"
  by (simp add: mask_eq_exp_minus_1)

lemma hd_size_shift: "push_bit 2 (drop_bit 2 h) = hd_size h"
proof -
  have "push_bit 2 (drop_bit 2 h) = h AND NOT (mask 2)"
  proof (rule bit_eqI)
    fix n
    have "2 \<le> n \<Longrightarrow> Suc (Suc (n - 2)) = n" by simp
    then show "bit (push_bit 2 (drop_bit 2 h)) n = bit (h AND NOT (mask 2)) n"
      by (auto simp add: bit_simps)
  qed
  then show ?thesis by (simp add: hd_size_def neg4_mask)
qed

lemma hd_size_arith: "hd_size h = h - h mod 4"
  using bits_ident [of 2 h] hd_size_shift [of h] by (simp add: take_bit_eq_mod)

lemma hd_size_mod4 [simp]: "hd_size h mod 4 = 0"
  by (simp add: hd_size_arith)

lemma hd_size_bounds: "hd_size h \<le> h" "h < hd_size h + 4"
  by (simp_all add: hd_size_arith) 

lemma hd_size_or_2 [simp]: "hd_size (h OR 2) = hd_size h"
  by (simp add: hd_size_def bit.conj_disj_distrib2)

lemma hd_size_or_1 [simp]: "hd_size (h OR 1) = hd_size h"
  by (simp add: hd_size_def bit.conj_disj_distrib2)

lemma hd_size_clear_1 [simp]: "hd_size (h AND - 2) = hd_size h"
  by (simp add: hd_size_def and.assoc)

lemma hd_size_clear_2 [simp]: "hd_size (h AND - 3) = hd_size h"
  by (simp add: hd_size_def and.assoc)

lemma hd_allocated_arith: "hd_allocated h = (h mod 2 = 1)"
  by (simp add: hd_allocated_def and_one_eq)

lemma hd_allocated_or_2 [simp]: "hd_allocated (h OR 2) = hd_allocated h"
  by (simp add: hd_allocated_def bit.conj_disj_distrib2)

lemma hd_allocated_or_1 [simp]: "hd_allocated (h OR 1)"
  by (simp add: hd_allocated_def bit.conj_disj_distrib2 and_one_eq or_one_eq) presburger

lemma hd_size_add: "x mod 4 = 0 \<Longrightarrow> hd_size (h + x) = hd_size h + x"
  by (simp add: hd_size_arith) presburger

lemma hd_size_aligned: "x mod 4 = 0 \<Longrightarrow> hd_size x = x"
  by (simp add: hd_size_arith)

lemma hd_size_split_header: "B mod 4 = 0 \<Longrightarrow> hd_size (B OR (b AND 3) OR 1) = B"
proof -
  assume B: "B mod 4 = 0"
  have "hd_size (B OR (b AND 3) OR 1) = hd_size B OR ((b AND 3) AND - 4) OR (1 AND - 4)"
    by (simp add: hd_size_def bit.conj_disj_distrib2)
  also have "\<dots> = hd_size B" by (simp add: and.assoc)
  finally show ?thesis using B by (simp add: hd_size_aligned)
qed

lemma hd_size_pos_neq_1: "0 < hd_size h \<Longrightarrow> h \<noteq> 1"
  by (auto simp: hd_size_def)

lemma total_simps [simp]: "total [] = 0" "total (h # hs) = hd_size h + total hs"
  "total (xs @ ys) = total xs + total ys"
  by (simp_all add: total_def)

lemma chain_total: "chain m a hs e \<Longrightarrow> e = a + total hs"
  by (induction hs arbitrary: a) force+

lemma chain_total_nonneg: "chain m a hs e \<Longrightarrow> 0 \<le> total hs"
  by (induction hs arbitrary: a) auto

lemma chain_le: "chain m a hs e \<Longrightarrow> a \<le> e"
  using chain_total chain_total_nonneg by fastforce

lemma chain_frame:
  "chain m a hs e \<Longrightarrow> (\<And>x. a \<le> x \<Longrightarrow> x < e \<Longrightarrow> m' x = m x) \<Longrightarrow> chain m' a hs e"
proof (induction hs arbitrary: a)
  case Nil
  then show ?case by simp
next
  case (Cons h hs)
  from Cons.prems(1) have c: "chain m (a + hd_size h) hs e" and p: "0 < hd_size h" and m: "m a = Some h"
    by auto
  from chain_le [OF c] p have "a < e" by simp
  with Cons.prems(2) [of a] m have "m' a = Some h" by simp
  moreover have "chain m' (a + hd_size h) hs e"
    using c p Cons.prems(2) by (intro Cons.IH) auto
  ultimately show ?case using p by simp
qed

lemma chain_append:
  "chain m a (xs @ ys) e = (chain m a xs (a + total xs) \<and> chain m (a + total xs) ys e)"
  by (induction xs arbitrary: a) (auto simp: add.assoc)

lemma blocks_at_lower: "(x, h) \<in> set (blocks_at a hs) \<Longrightarrow> chain m a hs e \<Longrightarrow> a \<le> x \<and> x < e \<and> m x = Some h \<and> 0 < hd_size h"
proof (induction hs arbitrary: a)
  case Nil
  then show ?case by simp
next
  case (Cons g hs)
  from Cons.prems(2) have c: "chain m (a + hd_size g) hs e" and p: "0 < hd_size g" and m: "m a = Some g"
    by auto
  show ?case
  proof (cases "(x, h) = (a, g)")
    case True
    with chain_le [OF c] p m show ?thesis by auto
  next
    case False
    with Cons.prems(1) have "(x, h) \<in> set (blocks_at (a + hd_size g) hs)" by auto
    from Cons.IH [OF this c] p show ?thesis by auto
  qed
qed

lemma balloc_scan_chain:
  assumes "chain (mem s) a hs e" "mem s e = Some 1"
    and "best \<noteq> 0 \<longrightarrow> (\<exists>hb. mem s best = Some hb \<and> hd_size hb = bs)"
  shows "balloc_scan s B a best = Some (Done (scan_list B a hs best bs))"
  using assms
proof (induction hs arbitrary: a best bs)
  case Nil
  then show ?case by (subst balloc_scan.simps) (simp add: load_def)
next
  case (Cons h hs)
  from Cons.prems(1) have c: "chain (mem s) (a + hd_size h) hs e" and p: "0 < hd_size h"
    and m: "mem s a = Some h" by auto
  have n1: "h \<noteq> 1" using p by (rule hd_size_pos_neq_1)
  have al: "(h AND 1 = 0) = (\<not> hd_allocated h)" by (simp add: hd_allocated_def)
  note ih = Cons.IH [OF c Cons.prems(2)]
  show ?case
  proof (cases "\<not> hd_allocated h \<and> B \<le> hd_size h \<and> (best = 0 \<or> hd_size h < bs)")
    case True
    have "balloc_scan s B (a + hd_size h) a = Some (Done (scan_list B (a + hd_size h) hs a (hd_size h)))"
      by (rule ih) (simp add: m)
    with True Cons.prems(3) show ?thesis
      by (subst balloc_scan.simps) (auto simp add: load_def m n1 al hd_size_shift Let_def)
  next
    case False
    have "balloc_scan s B (a + hd_size h) best = Some (Done (scan_list B (a + hd_size h) hs best bs))"
      by (rule ih) (rule Cons.prems(3))
    with False Cons.prems(3) show ?thesis
      by (subst balloc_scan.simps) (auto simp add: load_def m n1 al hd_size_shift Let_def)
  qed
qed

lemma scan_list_best:
  assumes "chain m a hs e" "0 < a"
  shows "(scan_list B a hs best bs = best \<and>
            (\<forall>(x, h) \<in> set (blocks_at a hs). eligible B h \<longrightarrow> best \<noteq> 0 \<and> bs \<le> hd_size h))
       \<or> (\<exists>h. best_in B (blocks_at a hs) (scan_list B a hs best bs) h \<and> (best \<noteq> 0 \<longrightarrow> hd_size h < bs))"
  using assms
proof (induction hs arbitrary: a best bs)
  case Nil
  then show ?case by simp
next
  case (Cons g hs)
  from Cons.prems have c: "chain m (a + hd_size g) hs e" and p: "0 < hd_size g" by auto
  from Cons.prems p have pos: "0 < a" "0 < a + hd_size g" by auto
  have later: "a < x" if "(x, h) \<in> set (blocks_at (a + hd_size g) hs)" for x h
    using blocks_at_lower [OF that c] p by simp
  let ?tl = "blocks_at (a + hd_size g) hs"
  show ?case
  proof (cases "eligible B g \<and> (best = 0 \<or> hd_size g < bs)")
    case better: True
    show ?thesis
    proof (cases "hd_size g = B")
      case True
      with better have r: "scan_list B a (g # hs) best bs = a" by (simp add: eligible_def)
      have "best_in B (blocks_at a (g # hs)) a g"
        using better True later by (force simp: best_in_def eligible_def)
      with r better show ?thesis by auto
    next
      case False
      with better have r: "scan_list B a (g # hs) best bs = scan_list B (a + hd_size g) hs a (hd_size g)"
        by (simp add: eligible_def)
      from Cons.IH [OF c pos(2), of a "hd_size g"] show ?thesis
      proof
        assume "scan_list B (a + hd_size g) hs a (hd_size g) = a \<and>
          (\<forall>(x, h)\<in>set ?tl. eligible B h \<longrightarrow> a \<noteq> 0 \<and> hd_size g \<le> hd_size h)"
        with r better later have "best_in B (blocks_at a (g # hs)) (scan_list B a (g # hs) best bs) g"
          by (force simp: best_in_def)
        with better show ?thesis by auto
      next
        assume "\<exists>h. best_in B ?tl (scan_list B (a + hd_size g) hs a (hd_size g)) h \<and>
                 (a \<noteq> 0 \<longrightarrow> hd_size h < hd_size g)"
        then obtain h where h: "best_in B ?tl (scan_list B a (g # hs) best bs) h"
          and lt: "a \<noteq> 0 \<longrightarrow> hd_size h < hd_size g" unfolding r by blast
        from h have "(scan_list B a (g # hs) best bs, h) \<in> set ?tl" by (simp add: best_in_def)
        from later [OF this] have a0: "a < scan_list B a (g # hs) best bs" .
        from pos lt have lt': "hd_size h < hd_size g" by simp
        with h have "best_in B (blocks_at a (g # hs)) (scan_list B a (g # hs) best bs) h"
          by (auto simp: best_in_def)
        moreover have "best \<noteq> 0 \<longrightarrow> hd_size h < bs" using lt' better by auto
        ultimately show ?thesis by blast
      qed
    qed
  next
    case worse: False
    then have r: "scan_list B a (g # hs) best bs = scan_list B (a + hd_size g) hs best bs"
      by (auto simp: eligible_def)
    from Cons.IH [OF c pos(2), of best bs] show ?thesis
    proof
      assume "scan_list B (a + hd_size g) hs best bs = best \<and>
          (\<forall>(x, h)\<in>set ?tl. eligible B h \<longrightarrow> best \<noteq> 0 \<and> bs \<le> hd_size h)"
      with r worse show ?thesis by auto
    next
      assume "\<exists>h. best_in B ?tl (scan_list B (a + hd_size g) hs best bs) h \<and>
                 (best \<noteq> 0 \<longrightarrow> hd_size h < bs)"
      then obtain h where h: "best_in B ?tl (scan_list B a (g # hs) best bs) h"
        and lt: "best \<noteq> 0 \<longrightarrow> hd_size h < bs" unfolding r by blast
      from worse lt have "eligible B g \<longrightarrow> hd_size h < hd_size g" by auto
      with h have "best_in B (blocks_at a (g # hs)) (scan_list B a (g # hs) best bs) h"
        by (auto simp: best_in_def)
      with lt show ?thesis by blast
    qed
  qed
qed

lemma blocks_at_split:
  "(x, h) \<in> set (blocks_at a hs) \<Longrightarrow> \<exists>xs ys. hs = xs @ h # ys \<and> x = a + total xs"
proof (induction hs arbitrary: a)
  case Nil
  then show ?case by simp
next
  case (Cons g hs)
  show ?case
  proof (cases "(x, h) = (a, g)")
    case True
    then have "g # hs = [] @ h # hs \<and> x = a + total []" by simp
    then show ?thesis by blast
  next
    case False
    with Cons.prems have "(x, h) \<in> set (blocks_at (a + hd_size g) hs)" by auto
    from Cons.IH [OF this] obtain xs ys where "hs = xs @ h # ys" "x = a + hd_size g + total xs"
      by blast
    then have "g # hs = (g # xs) @ h # ys \<and> x = a + total (g # xs)" by simp
    then show ?thesis by blast
  qed
qed

lemma chain_update:
  assumes "chain m a hs e" "m x = Some v" "hd_size v' = hd_size v"
  shows "\<exists>hs'. chain (m(x \<mapsto> v')) a hs' e"
  using assms(1)
proof (induction hs arbitrary: a)
  case Nil
  then have "chain (m(x \<mapsto> v')) a [] e" by simp
  then show ?case by blast
next
  case (Cons h hs)
  from Cons.prems have c: "chain m (a + hd_size h) hs e" and p: "0 < hd_size h"
    and m: "m a = Some h" by auto
  show ?case
  proof (cases "x = a")
    case True
    with m assms(2) have vh: "v = h" by simp
    have "chain (m(x \<mapsto> v')) (a + hd_size h) hs e"
      using c by (rule chain_frame) (use True p in auto)
    with True vh assms(3) p have "chain (m(x \<mapsto> v')) a (v' # hs) e" by simp
    then show ?thesis by blast
  next
    case False
    from Cons.IH [OF c] obtain hs' where "chain (m(x \<mapsto> v')) (a + hd_size h) hs' e" by blast
    with False m p have "chain (m(x \<mapsto> v')) a (h # hs') e" by simp
    then show ?thesis by blast
  qed
qed

lemma chain_split_block:
  assumes "chain m a (xs @ b # ys) e" "hd_size h1 + hd_size h2 = hd_size b"
    and "0 < hd_size h1" "0 < hd_size h2"
  shows "chain (m(a + total xs \<mapsto> h1, a + total xs + hd_size h1 \<mapsto> h2)) a (xs @ h1 # h2 # ys) e"
proof -
  let ?p = "a + total xs"
  let ?m = "m(?p \<mapsto> h1, ?p + hd_size h1 \<mapsto> h2)"
  from assms(1) have cx: "chain m a xs ?p" and cy: "chain m (?p + hd_size b) ys e"
    by (simp_all add: chain_append)
  have "chain ?m a xs ?p" using cx by (rule chain_frame) (use assms(3) in auto)
  moreover have "chain ?m (?p + hd_size b) ys e"
    using cy by (rule chain_frame) (use assms(2-4) in auto)
  moreover have "?m ?p = Some h1" using assms(3) by simp
  moreover have "?m (?p + hd_size h1) = Some h2" by simp
  ultimately show ?thesis using assms(2-4) by (simp add: chain_append add.assoc)
qed

lemma heap_ok_store:
  assumes "heap_ok s" "mem s x = Some v" "hd_size v' = hd_size v" "x \<noteq> heap_start s + alloc_size s"
  shows "heap_ok (s\<lparr>mem := (mem s)(x \<mapsto> v')\<rparr>)"
proof -
  from assms(1) obtain hs where "chain (mem s) (heap_start s) hs (heap_start s + alloc_size s)"
    by (auto simp: heap_ok_def)
  from chain_update [OF this assms(2,3)] obtain hs' where
    "chain ((mem s)(x \<mapsto> v')) (heap_start s) hs' (heap_start s + alloc_size s)" by blast
  moreover have "mapped_region (s\<lparr>mem := (mem s)(x \<mapsto> v')\<rparr>)"
    using assms(1,2) by (auto simp: heap_ok_def mapped_region_def)
  ultimately show ?thesis using assms(1,4) by (auto simp: heap_ok_def)
qed

lemma bfree_heap_ok:
  assumes "heap_ok s" "bfree p s = Done (r, s')"
  shows "heap_ok s'"
proof (cases "r = 0")
  case False
  with assms(2) have "s' = s"
    by (auto simp: bfree_def run_def load_def store_def Let_def
      split: if_splits option.splits bind_splits)
  with assms(1) show ?thesis by simp
next
  case True
  let ?e = "heap_start s + alloc_size s"
  from assms(2) True obtain b n where
    p: "p < ?e" and b: "mem s (p - 4) = Some b" 
    and n: "mem (s\<lparr>mem := (mem s)(p - 4 \<mapsto> b AND - 2)\<rparr>) (p - 4 + hd_size b) = Some n"
    and s': "s' = (if n \<noteq> 1 then s\<lparr>mem := (mem s)(p - 4 \<mapsto> b AND - 2, p - 4 + hd_size b \<mapsto> n AND - 3)\<rparr>
                   else s\<lparr>mem := (mem s)(p - 4 \<mapsto> b AND - 2)\<rparr>)"
    by (auto simp: bfree_def machine_defs hd_size_def and.assoc split: if_splits option.splits bind_splits)
  define s1 where "s1 = s\<lparr>mem := (mem s)(p - 4 \<mapsto> b AND - 2)\<rparr>"
  have ok1: "heap_ok s1" unfolding s1_def using assms(1) b by (rule heap_ok_store) (use p in auto)
  have n1: "mem s1 (p - 4 + hd_size b) = Some n" using n by (simp add: s1_def)
  have s1': "s' = (if n \<noteq> 1 then s1\<lparr>mem := (mem s1)(p - 4 + hd_size b \<mapsto> n AND - 3)\<rparr> else s1)"
    using s' by (simp add: s1_def)
  show ?thesis
  proof (cases "n = 1")
    case True
    with s1' ok1 show ?thesis by simp
  next
    case False
    from ok1 have "mem s1 (heap_start s1 + alloc_size s1) = Some 1" by (simp add: heap_ok_def)
    with n1 False have "p - 4 + hd_size b \<noteq> heap_start s1 + alloc_size s1" by auto
    with heap_ok_store [OF ok1 n1, of "n AND - 3"] False s1' show ?thesis by simp
  qed
qed

lemma total_mod4 [simp]: "total hs mod 4 = 0"
proof (induction hs)
  case Nil
  show ?case by simp
next
  case (Cons h hs)
  with hd_size_mod4 [of h] show ?case unfolding total_simps by presburger
qed

lemma to_size_t_id: "0 \<le> x \<Longrightarrow> x < 2147483648 \<Longrightarrow> to_size_t x = x"
  by (simp add: to_size_t_def take_bit_int_eq_self)

lemma chain_next_header:
  assumes "chain m a (xs @ b # ys) e" "m e = Some 1"
  shows "\<exists>n. m (a + total xs + hd_size b) = Some n \<and> (n = 1) = (a + total xs + hd_size b = e)"
proof (cases ys)
  case Nil
  with assms show ?thesis by (auto simp: chain_append)
next
  case (Cons y ys')
  with assms(1) have c: "chain m (a + total xs + hd_size b) (y # ys') e"
    by (simp add: chain_append)
  then have "m (a + total xs + hd_size b) = Some y" "0 < hd_size y" by auto
  moreover from this have "y \<noteq> 1" by (auto dest: hd_size_pos_neq_1)
  moreover from c \<open>0 < hd_size y\<close> have "a + total xs + hd_size b \<noteq> e"
    using chain_le [of m "a + total xs + hd_size b + hd_size y" ys' e] by auto
  ultimately show ?thesis by simp
qed

lemma balloc_place_ok:
  assumes ok: "heap_ok s"
    and ch: "chain (mem s) (heap_start s) (xs @ b # ys) (heap_start s + alloc_size s)"
    and B: "0 < B" "B mod 4 = 0" "B \<le> hd_size b"
  shows "\<exists>s'. balloc_place s B (heap_start s + total xs) = Some (heap_start s + total xs + 4, s')
              \<and> heap_ok s' \<and> heap_start s' = heap_start s \<and> alloc_size s' = alloc_size s"
proof -
  let ?a = "heap_start s" and ?e = "heap_start s + alloc_size s"
  define p where "p = ?a + total xs"
  let ?r = "hd_size b - B"
  from ok have e1: "mem s ?e = Some 1" and mr: "mapped_region s" and lim: "alloc_size s \<le> 2147483632"
    by (simp_all add: heap_ok_def)
  from ch have cx: "chain (mem s) ?a xs p" and mb: "mem s p = Some b" and pb: "0 < hd_size b"
    and cy: "chain (mem s) (p + hd_size b) ys ?e"
    by (simp_all add: chain_append p_def)
  from chain_le [OF cx] chain_le [OF cy] have rng: "?a \<le> p" "p + hd_size b \<le> ?e" by auto
  from chain_next_header [OF ch e1] obtain n where
    n: "mem s (p + hd_size b) = Some n" and n1: "(n = 1) = (p + hd_size b = ?e)"
    by (auto simp: p_def)
  have r: "0 \<le> ?r" "?r < 2147483648" using B rng lim pb by simp_all
  have r4: "?r mod 4 = 0" using B(2) hd_size_mod4 [of b] by presburger
  have wr: "wrap32 ?r = ?r" using r by (simp add: wrap32_id)
  have tr: "to_size_t ?r = ?r" using r by (rule to_size_t_id)
  show ?thesis
  proof (cases "16 \<le> ?r")
    case True
    define h1 where "h1 = B OR (b AND 3) OR 1"
    define s2 where "s2 = s\<lparr>mem := (mem s)(p \<mapsto> h1, p + B \<mapsto> ?r OR 2)\<rparr>"
    define s3 where "s3 = (if n \<noteq> 1 then s2\<lparr>mem := (mem s2)(p + hd_size b \<mapsto> n OR 2)\<rparr> else s2)"
    have h1: "hd_size h1 = B" unfolding h1_def using B(2) by (rule hd_size_split_header)
    have h2: "hd_size (?r OR 2) = ?r" using r4 by (simp add: hd_size_aligned)
    have "(p + B - ?a) mod 4 = 0" using B(2) total_mod4 [of xs] unfolding p_def by presburger
    with mr rng B r True have "mem s (p + B) \<noteq> None"
      unfolding mapped_region_def by auto
    then obtain old where mp: "mem s (p + B) = Some old" by blast
    have res: "balloc_place s B p = Some (p + 4, s3)"
      using mb mp n True B(1)
      by (simp add: balloc_place_def load_def store_def sizeof_blockHeader_def Let_def
          hd_size_shift wr tr h1_def s2_def s3_def)
    have "chain (mem s2) ?a (xs @ h1 # (?r OR 2) # ys) ?e"
      using chain_split_block [OF ch, of h1 "?r OR 2"] h1 h2 True B
      by (simp add: s2_def p_def)
    moreover have "mapped_region s2" using mr mb mp by (auto simp: mapped_region_def s2_def)
    moreover have "mem s2 ?e = Some 1" using e1 rng B True pb by (simp add: s2_def)
    ultimately have ok2: "heap_ok s2" using ok by (auto simp: heap_ok_def s2_def)
    have n2: "mem s2 (p + hd_size b) = Some n" using n B True by (simp add: s2_def)
    have ok3: "heap_ok s3"
    proof (cases "n = 1")
      case True
      with ok2 show ?thesis by (simp add: s3_def)
    next
      case False
      with n1 have "p + hd_size b \<noteq> heap_start s2 + alloc_size s2" by (simp add: s2_def)
      with heap_ok_store [OF ok2 n2, of "n OR 2"] False show ?thesis by (simp add: s3_def)
    qed
    have "heap_start s3 = heap_start s \<and> alloc_size s3 = alloc_size s"
      by (simp add: s3_def s2_def)
    with res ok3 show ?thesis unfolding p_def by blast
  next
    case False
    define s1 where "s1 = s\<lparr>mem := (mem s)(p \<mapsto> b OR 1)\<rparr>"
    define s2 where "s2 = (if n \<noteq> 1 then s1\<lparr>mem := (mem s1)(p + hd_size b \<mapsto> n OR 2)\<rparr> else s1)"
    have n': "mem s1 (p + hd_size b) = Some n" using n pb by (simp add: s1_def)
    have res: "balloc_place s B p = Some (p + 4, s2)"
      using mb n pb False
      by (simp add: balloc_place_def load_def store_def sizeof_blockHeader_def Let_def
          hd_size_shift wr tr s1_def s2_def)
    have ok1: "heap_ok s1" unfolding s1_def using ok mb
      by (rule heap_ok_store) (use rng pb in auto)
    have ok2: "heap_ok s2"
    proof (cases "n = 1")
      case True
      with ok1 show ?thesis by (simp add: s2_def)
    next
      case False
      with n1 have "p + hd_size b \<noteq> heap_start s1 + alloc_size s1" by (simp add: s1_def)
      with heap_ok_store [OF ok1 n', of "n OR 2"] False show ?thesis by (simp add: s2_def)
    qed
    have "heap_start s2 = heap_start s \<and> alloc_size s2 = alloc_size s"
      by (simp add: s2_def s1_def)
    with res ok2 show ?thesis unfolding p_def by blast
  qed
qed

section \<open>Requests too large for an int\<close>

lemma wrap32_high:
  assumes "2147483648 \<le> x" "x < 4294967296"
  shows "wrap32 x = x - 4294967296"
proof -
  have "take_bit (Suc 31) x = take_bit (Suc 31) (x - 4294967296)"
    by (simp add: take_bit_eq_mod)
  then have "signed_take_bit 31 x = signed_take_bit 31 (x - 4294967296)"
    by (simp only: signed_take_bit_eq_iff_take_bit_eq)
  also have "\<dots> = x - 4294967296"
    using assms by (simp add: signed_take_bit_int_eq_self)
  finally show ?thesis by (simp add: wrap32_def)
qed

lemma to_size_t_negative:
  assumes "x < 0" "- 2147483648 \<le> x"
  shows "to_size_t x = x + 18446744073709551616"
proof -
  have "x mod 18446744073709551616 = (x + 18446744073709551616) mod 18446744073709551616"
    by simp
  also have "\<dots> = x + 18446744073709551616"
    using assms by (intro mod_pos_pos_trivial) auto
  finally show ?thesis by (simp add: to_size_t_def take_bit_eq_mod)
qed

lemma unsigned_compare_wrapped:
  assumes "16 \<le> x" "x < 4294967296"
  shows "16 \<le> to_size_t (wrap32 x)"
proof (cases "x < 2147483648")
  case True
  with assms show ?thesis by (simp add: wrap32_id to_size_t_id)
next
  case False
  with assms have "wrap32 x = x - 4294967296" by (simp add: wrap32_high)
  moreover have "to_size_t (x - 4294967296) = x - 4294967296 + 18446744073709551616"
    using assms False by (intro to_size_t_negative) auto
  ultimately show ?thesis using assms by simp
qed

lemma block_size_cases:
  assumes "1 \<le> n" "n < 2147483648"
  shows "(n \<le> 2147483636 \<and> block_size n = (n + 11) div 8 * 8 \<and> 0 < block_size n \<and> block_size n mod 4 = 0)
       \<or> (2147483636 < n \<and> - 2147483648 \<le> block_size n \<and> block_size n \<le> - 2147483640)"
proof (cases "n \<le> 2147483636")
  case True
  with assms have e: "block_size n = (n + 11) div 8 * 8" by (simp add: block_size_exact)
  have "0 < (n + 11) div 8 * 8 \<and> ((n + 11) div 8 * 8) mod 4 = 0" using assms by presburger
  with True e show ?thesis by simp
next
  case False
  let ?x = "(n + 11) div 8 * 8"
  have x: "2147483648 \<le> ?x" "?x \<le> 2147483656" using assms False by presburger+
  then have "wrap32 ?x = ?x - 4294967296" by (intro wrap32_high) auto
  moreover have "block_size n = wrap32 ?x"
    by (simp add: block_size_def sizeof_blockHeader_def add.commute)
  ultimately have "- 2147483648 \<le> block_size n \<and> block_size n \<le> - 2147483640"
    using x by linarith
  with False show ?thesis by simp
qed

lemma balloc_place_overflow:
  assumes ok: "heap_ok s" and mb: "mem s p = Some b" and pb: "0 < hd_size b"
    and rng: "p + hd_size b \<le> heap_start s + alloc_size s"
    and B: "- 2147483648 \<le> B" "B \<le> - 2147483640"
  shows "balloc_place s B p = None"
proof -
  from ok have mr: "mapped_region s" and lim: "alloc_size s \<le> 2147483632" and hs: "0 < heap_start s"
    by (simp_all add: heap_ok_def)
  have "mem s p \<noteq> None" using mb by simp
  with mr have lo: "heap_start s - 4 \<le> p" by (simp add: mapped_region_def)
  have "16 \<le> hd_size b - B" "hd_size b - B < 4294967296"
    using B pb rng lim lo by auto
  then have cmp: "16 \<le> to_size_t (wrap32 (hd_size b - B))" by (rule unsigned_compare_wrapped)
  have "p + B < heap_start s - 4" using B pb rng lim by auto
  with mr have "mem s (p + B) = None" unfolding mapped_region_def
    by (metis not_le)
  moreover have "p + B \<noteq> p" using B by auto
  ultimately show ?thesis
    using mb cmp
    by (simp add: balloc_place_def load_def store_def sizeof_blockHeader_def Let_def hd_size_shift)
qed

section \<open>coalesce on a chain of blocks\<close>

lemma free_bit: "(h AND 1 = 0) = (\<not> hd_allocated h)"
  by (simp add: hd_allocated_def)

lemma poke_simps [simp]:
  "mem (poke s x v) = (mem s)(x \<mapsto> v)"
  "heap_start (poke s x v) = heap_start s"
  "alloc_size (poke s x v) = alloc_size s"
  "allocated_once (poke s x v) = allocated_once s"
  "poke (poke s x v) x w = poke s x w"
  by (simp_all add: poke_def)

lemma poke_same: "mem s x = Some v \<Longrightarrow> poke s x v = s"
  by (simp add: poke_def map_upd_triv)

lemma store_poke: "mem s x = Some old \<Longrightarrow> store s x v = Some (poke s x v)"
  by (simp add: store_def poke_def)

lemma coalesce_inner_stop:
  "mem s nb = Some n \<Longrightarrow> n = 1 \<or> hd_allocated n \<Longrightarrow> coalesce_inner s a0 nb = Some (Done (s, nb))"
  by (subst coalesce_inner.simps) (auto simp: load_def free_bit)

lemma coalesce_inner_step:
  assumes "mem s nb = Some n" "n \<noteq> 1" "\<not> hd_allocated n" "mem s a0 = Some c"
    and "0 \<le> c + hd_size n" "c + hd_size n < 2147483648"
  shows "coalesce_inner s a0 nb =
         coalesce_inner (poke s a0 (c + hd_size n)) a0 (a0 + hd_size (c + hd_size n))"
  using assms
  by (subst coalesce_inner.simps) (simp add: load_def store_poke free_bit wrap32_id hd_size_def)

lemma coalesce_inner_chain:
  assumes "chain (mem s) a hs e" "mem s e = Some 1" "mem s a0 = Some c" "a = a0 + hd_size c"
    and "0 < hd_size c" "e - a0 < 2147483644"
  shows "coalesce_inner s a0 a =
         Some (Done (poke s a0 (c + total (takeWhile (\<lambda>h. \<not> hd_allocated h) hs)),
                     a + total (takeWhile (\<lambda>h. \<not> hd_allocated h) hs)))"
  using assms
proof (induction hs arbitrary: s a c)
  case Nil
  have "coalesce_inner s a0 a = Some (Done (s, a))"
    using Nil.prems by (intro coalesce_inner_stop) auto
  with Nil.prems(3) show ?case by (simp add: poke_same)
next
  case (Cons h hs)
  from Cons.prems(1) have c: "chain (mem s) (a + hd_size h) hs e" and p: "0 < hd_size h"
    and m: "mem s a = Some h" by auto
  have n1: "h \<noteq> 1" using p by (rule hd_size_pos_neq_1)
  show ?case
  proof (cases "hd_allocated h")
    case True
    have "coalesce_inner s a0 a = Some (Done (s, a))"
      using m True by (intro coalesce_inner_stop) auto
    with True Cons.prems(3) show ?thesis by (simp add: poke_same)
  next
    case False
    let ?c1 = "c + hd_size h"
    let ?s1 = "poke s a0 ?c1"
    have sz: "hd_size ?c1 = hd_size c + hd_size h" by (simp add: hd_size_add)
    from chain_le [OF c] have le: "a + hd_size h \<le> e" .
    have cb: "0 \<le> ?c1" "?c1 < 2147483648"
      using hd_size_bounds [of c] Cons.prems(4-6) p le by auto
    have step: "coalesce_inner s a0 a = coalesce_inner ?s1 a0 (a0 + hd_size ?c1)"
      using m n1 False Cons.prems(3) cb by (rule coalesce_inner_step)
    have c1: "chain (mem ?s1) (a + hd_size h) hs e"
      using c by (rule chain_frame) (use Cons.prems(4,5) p in auto)
    have "coalesce_inner ?s1 a0 (a + hd_size h) =
        Some (Done (poke ?s1 a0 (?c1 + total (takeWhile (\<lambda>h. \<not> hd_allocated h) hs)),
                     a + hd_size h + total (takeWhile (\<lambda>h. \<not> hd_allocated h) hs)))"
      using c1 by (rule Cons.IH) (use Cons.prems p le sz in auto)
    with step sz Cons.prems(4) False show ?thesis by (simp add: add.assoc)
  qed
qed

lemma coalesce_loop_end: "mem s a = Some 1 \<Longrightarrow> coalesce_loop s a = Some (Done s)"
  by (subst coalesce_loop.simps) (simp add: load_def)

lemma coalesce_loop_allocated:
  "mem s a = Some c \<Longrightarrow> c \<noteq> 1 \<Longrightarrow> hd_allocated c \<Longrightarrow>
   coalesce_loop s a = coalesce_loop s (a + hd_size c)"
  by (subst coalesce_loop.simps) (simp add: load_def free_bit hd_size_def)

lemma coalesce_loop_free:
  assumes "mem s a = Some c" "c \<noteq> 1" "\<not> hd_allocated c"
    and "coalesce_inner s a (a + hd_size c) = Some (Done (s1, nb))"
    and "mem s1 nb = Some n" "mem s1 a = Some c1" "nb \<noteq> a"
  shows "coalesce_loop s a =
         coalesce_loop (if n \<noteq> 1 then poke s1 nb (n OR 2) else s1) (a + hd_size c1)"
  using assms
  by (subst coalesce_loop.simps) (simp add: load_def store_poke free_bit hd_size_def)

lemma same_shape_refl [simp]: "same_shape s s"
  by (simp add: same_shape_def)

lemma same_shape_trans: "same_shape s s' \<Longrightarrow> same_shape s' s'' \<Longrightarrow> same_shape s s''"
  by (simp add: same_shape_def)

lemma same_shape_poke: "mem s x = Some v \<Longrightarrow> same_shape s (poke s x w)"
  by (simp add: same_shape_def)

lemma coalesce_loop_chain:
  assumes "chain (mem s) a hs e" "mem s e = Some 1" "e - a < 2147483644"
  shows "\<exists>s' hs'. coalesce_loop s a = Some (Done s') \<and> chain (mem s') a hs' e \<and> merged hs'
            \<and> mem s' e = Some 1 \<and> same_shape s s' \<and> (\<forall>x. x < a \<longrightarrow> mem s' x = mem s x)
            \<and> (hs = [] \<longrightarrow> hs' = [])
            \<and> (\<forall>h t. hs = h # t \<and> hd_allocated h \<longrightarrow> (\<exists>t'. hs' = h # t'))"
  using assms
proof (induction "length hs" arbitrary: hs s a rule: less_induct)
  case less
  show ?case
  proof (cases hs)
    case Nil
    with less.prems have "coalesce_loop s a = Some (Done s)" by (simp add: coalesce_loop_end)
    moreover have "chain (mem s) a [] e" using less.prems Nil by simp
    ultimately show ?thesis using less.prems(2) Nil by (intro exI [of _ s] exI [of _ "[]"]) simp
  next
    case (Cons h t)
    with less.prems(1) have c: "chain (mem s) (a + hd_size h) t e" and p: "0 < hd_size h"
      and m: "mem s a = Some h" by auto
    have n1: "h \<noteq> 1" using p by (rule hd_size_pos_neq_1)
    from chain_le [OF c] have le: "a + hd_size h \<le> e" .
    show ?thesis
    proof (cases "hd_allocated h")
      case True
      have "length t < length hs" using Cons by simp
      from less.hyps [OF this c less.prems(2)] le p less.prems(3)
      obtain s' t' where r: "coalesce_loop s (a + hd_size h) = Some (Done s')"
        and c': "chain (mem s') (a + hd_size h) t' e" and mg: "merged t'"
        and e': "mem s' e = Some 1" and sh: "same_shape s s'"
        and fr: "\<forall>x. x < a + hd_size h \<longrightarrow> mem s' x = mem s x"
        by auto
      have "coalesce_loop s a = Some (Done s')"
        using coalesce_loop_allocated [OF m n1 True] r by simp
      moreover have "chain (mem s') a (h # t') e" using c' fr m p by simp
      moreover have "merged (h # t')" using mg True by (cases t') simp_all
      moreover have "\<forall>x. x < a \<longrightarrow> mem s' x = mem s x" using fr p by simp
      ultimately show ?thesis using e' sh Cons
        by (intro exI [of _ s'] exI [of _ "h # t'"]) simp
    next
      case False
      let ?fs = "takeWhile (\<lambda>h. \<not> hd_allocated h) t"
      let ?rest = "dropWhile (\<lambda>h. \<not> hd_allocated h) t"
      define c1 where "c1 = h + total ?fs"
      define nb where "nb = a + hd_size h + total ?fs"
      define s1 where "s1 = poke s a c1"
      have inner: "coalesce_inner s a (a + hd_size h) = Some (Done (s1, nb))"
        unfolding s1_def nb_def c1_def
        using c less.prems(2) m _ p by (rule coalesce_inner_chain) (use less.prems(3) in auto)
      have sz1: "hd_size c1 = hd_size h + total ?fs" unfolding c1_def by (simp add: hd_size_add)
      have "chain (mem s) (a + hd_size h) (?fs @ ?rest) e" using c by simp
      then have cf: "chain (mem s) (a + hd_size h) ?fs nb" and cr: "chain (mem s) nb ?rest e"
        unfolding chain_append nb_def by auto
      from chain_le [OF cf] p have anb: "a < nb" by simp
      from chain_le [OF cr] have nbe: "nb \<le> e" .
      have cr1: "chain (mem s1) nb ?rest e"
        using cr by (rule chain_frame) (use anb in \<open>auto simp: s1_def\<close>)
      have e1: "mem s1 e = Some 1" using less.prems(2) anb nbe by (simp add: s1_def)
      have m1: "mem s1 a = Some c1" by (simp add: s1_def)
      have sh1: "same_shape s s1" unfolding s1_def using m by (rule same_shape_poke)
      have fr1: "\<forall>x. x < a \<longrightarrow> mem s1 x = mem s x" by (simp add: s1_def)
      have len: "length ?rest < length hs" using Cons length_dropWhile_le [of _ t]
        by (simp add: le_imp_less_Suc)
      have pc1: "0 < hd_size c1" using sz1 p chain_total_nonneg [OF cf] by simp
      show ?thesis
      proof (cases ?rest)
        case Nil
        with cr1 have nbe': "nb = e" by simp
        with e1 have n: "mem s1 nb = Some 1" by simp
        have "coalesce_loop s a = coalesce_loop s1 (a + hd_size c1)"
          using coalesce_loop_free [OF m n1 False inner n m1] anb by simp
        also have "\<dots> = Some (Done s1)"
        proof -
          have "a + hd_size c1 = e" using sz1 nbe' by (simp add: nb_def)
          with e1 show ?thesis by (simp add: coalesce_loop_end)
        qed
        finally have "coalesce_loop s a = Some (Done s1)" .
        moreover have "chain (mem s1) a [c1] e" using m1 pc1 sz1 nbe' by (simp add: nb_def)
        ultimately show ?thesis using e1 sh1 fr1 Cons False
          by (intro exI [of _ s1] exI [of _ "[c1]"]) simp
      next
        case (Cons n rest')
        with cr1 have n: "mem s1 nb = Some n" and pn: "0 < hd_size n"
          and crr: "chain (mem s1) (nb + hd_size n) rest' e" by auto
        have nn1: "n \<noteq> 1" using pn by (rule hd_size_pos_neq_1)
        have na: "hd_allocated n" using Cons hd_dropWhile [of "\<lambda>h. \<not> hd_allocated h" t] by auto
        define s2 where "s2 = poke s1 nb (n OR 2)"
        have anb1: "a + hd_size c1 = nb" using sz1 by (simp add: nb_def)
        then have step: "coalesce_loop s a = coalesce_loop s2 nb"
          using coalesce_loop_free [OF m n1 False inner n m1] anb nn1
          by (simp add: s2_def)
        have c2: "chain (mem s2) nb ((n OR 2) # rest') e"
        proof -
          have "chain (mem s2) (nb + hd_size n) rest' e"
            using crr by (rule chain_frame) (use pn in \<open>auto simp: s2_def\<close>)
          then show ?thesis using pn by (simp add: s2_def)
        qed
        from chain_le [OF crr] pn have nbe': "nb < e" by simp
        have e2: "mem s2 e = Some 1" using e1 nbe' by (simp add: s2_def)
        have len2: "length ((n OR 2) # rest') < length hs" using len Cons by simp
        have "e - nb < 2147483644" using less.prems(3) anb by simp
        from less.hyps [OF len2 c2 e2 this] na
        obtain s' t' where r: "coalesce_loop s2 nb = Some (Done s')"
          and c': "chain (mem s') nb ((n OR 2) # t') e" and mg: "merged ((n OR 2) # t')"
          and e': "mem s' e = Some 1" and sh: "same_shape s2 s'"
          and fr: "\<forall>x. x < nb \<longrightarrow> mem s' x = mem s2 x"
          by auto
        have "mem s' a = Some c1" using fr anb m1 by (simp add: s2_def)
        then have "chain (mem s') a (c1 # (n OR 2) # t') e" using c' pc1 anb1 by simp
        moreover have "merged (c1 # (n OR 2) # t')" using mg na by (simp add: or.assoc)
        moreover have "same_shape s s'"
          using sh1 same_shape_poke [OF n, of "n OR 2"] sh unfolding s2_def
          by (blast intro: same_shape_trans)
        moreover have "\<forall>x. x < a \<longrightarrow> mem s' x = mem s x"
          using fr fr1 anb by (simp add: s2_def)
        ultimately show ?thesis using step r e' False \<open>hs = h # t\<close>
          by (intro exI [of _ s'] exI [of _ "c1 # (n OR 2) # t'"]) simp
      qed
    qed
  qed
qed

lemma coalesce_loop_merged:
  assumes "chain (mem s) a hs e" "mem s e = Some 1" "merged hs"
  shows "coalesce_loop s a = Some (Done s)"
  using assms
proof (induction hs arbitrary: a)
  case Nil
  then show ?case by (simp add: coalesce_loop_end)
next
  case (Cons h t)
  from Cons.prems(1) have c: "chain (mem s) (a + hd_size h) t e" and p: "0 < hd_size h"
    and m: "mem s a = Some h" by auto
  have n1: "h \<noteq> 1" using p by (rule hd_size_pos_neq_1)
  have mt: "merged t" using Cons.prems(3) by (cases t) simp_all
  have ih: "coalesce_loop s (a + hd_size h) = Some (Done s)"
    using c Cons.prems(2) mt by (rule Cons.IH)
  show ?case
  proof (cases "hd_allocated h")
    case True
    with coalesce_loop_allocated [OF m n1] ih show ?thesis by simp
  next
    case False
    show ?thesis
    proof (cases t)
      case Nil
      with c Cons.prems(2) have n: "mem s (a + hd_size h) = Some 1" by simp
      then have "coalesce_inner s a (a + hd_size h) = Some (Done (s, a + hd_size h))"
        by (intro coalesce_inner_stop) auto
      from coalesce_loop_free [OF m n1 False this n m] p ih show ?thesis by simp
    next
      case (Cons n t')
      with c have n: "mem s (a + hd_size h) = Some n" and pn: "0 < hd_size n" by auto
      have nn1: "n \<noteq> 1" using pn by (rule hd_size_pos_neq_1)
      from Cons.prems(3) False Cons have na: "hd_allocated n" and n2: "n OR 2 = n" 
        using \<open>merged (h # t)\<close> by auto
      have "coalesce_inner s a (a + hd_size h) = Some (Done (s, a + hd_size h))"
        using n na by (intro coalesce_inner_stop) auto
      from coalesce_loop_free [OF m n1 False this n m] p ih nn1 n2 n
      show ?thesis by (simp add: poke_same)
    qed
  qed
qed

section \<open>init_heap\<close>

lemma padded_size_facts:
  assumes "os_ok os" "0 < n"
  shows "padded_size os n mod 8 = 0" "16 \<le> padded_size os n" "n \<le> padded_size os n"
    "padded_size os n < n + pagesize os"
proof -
  let ?ps = "pagesize os"
  from assms have ps: "16 \<le> ?ps" "?ps mod 8 = 0" by (simp_all add: os_ok_def)
  have m0: "padded_size os n mod ?ps = 0"
    unfolding padded_size_def by (metis add.commute add_diff_cancel_left' add_diff_eq mod_add_right_eq mod_self)
  have ge: "n \<le> padded_size os n" and lt: "padded_size os n < n + ?ps"
    unfolding padded_size_def using ps by (simp_all add: pos_mod_bound)
  from m0 have "?ps dvd padded_size os n" by (simp add: dvd_eq_mod_eq_0)
  moreover from ge assms(2) have pos: "0 < padded_size os n" by simp
  ultimately have "?ps \<le> padded_size os n" by (rule zdvd_imp_le)
  with ps show "16 \<le> padded_size os n" by simp
  from ps(2) have "8 dvd ?ps" by (simp add: dvd_eq_mod_eq_0)
  then have "8 dvd padded_size os n" using \<open>?ps dvd padded_size os n\<close> by (rule dvd_trans)
  then show "padded_size os n mod 8 = 0" by (simp add: dvd_eq_mod_eq_0)
  show "n \<le> padded_size os n" by (rule ge)
  show "padded_size os n < n + ?ps" by (rule lt)
qed

lemma init_heap_success:
  assumes os: "os_ok os" and pre: "pre_init s0" and n: "n < 2147483648"
    and r: "init_heap os n s0 = Done (0, s)"
  shows "heap_ok s \<and> alloc_size s = padded_size os n - 8 \<and> mmap_result os = Some (heap_start s - 4)"
proof -
  let ?P = "padded_size os n"
  have npos: "0 < n" using r pre by (auto simp: init_heap_def pre_init_def split: if_splits)
  note pf = padded_size_facts [OF os npos]
  from os have ps: "pagesize os < 2147483648" by (simp add: os_ok_def)
  have a1: "(n + (pagesize os - n mod pagesize os) mod pagesize os) = ?P"
    by (simp add: padded_size_def)
  note r' = r [unfolded init_heap_def Let_def a1]
  have small: "?P < 2147483648"
  proof (rule ccontr)
    assume "\<not> ?P < 2147483648"
    then have "wrap32 ?P = ?P - 4294967296" using pf(4) n ps by (intro wrap32_high) auto
    then have "wrap32 ?P \<le> 0" using pf(4) n ps by simp
    with r' pre npos show False
      by (auto simp: pre_init_def mmap_zero_def split: if_splits option.splits)
  qed
  then have w: "wrap32 ?P = ?P" using pf(2) by (simp add: wrap32_id)
  have le: "?P \<le> 2147483640" using small pf(1) by presburger
  from r' pre npos obtain p where p: "mmap_result os = Some p"
    by (auto simp: pre_init_def  mmap_zero_def split: if_splits option.splits)
  with os have ppos: "0 < p" by (simp add: os_ok_def)
  define z where "z = (\<lambda>a. if p \<le> a \<and> a < p + ?P \<and> (a - p) mod 4 = 0 then Some (0::int) else None)"
  have w8: "wrap32 (?P - 8) = ?P - 8" using pf(2) small by (simp add: wrap32_id)
  have w2: "wrap32 (?P - 6) = ?P - 6" using pf(2) small by (simp add: wrap32_id)
  have P4: "?P mod 4 = 0" using pf(1) by presburger
  have zs: "z (p + 4) = Some 0" "z (p + ?P - 4) = Some 0" "z (p + ?P - 8) = Some 0"
    using pf(2) P4 by (simp_all add: z_def) presburger+
  have mz: "mmap_zero os ?P (s0\<lparr>alloc_size := ?P\<rparr>) = Some (p, s0\<lparr>alloc_size := ?P, mem := z\<rparr>)"
    using p pf(2) pre by (simp add: mmap_zero_def z_def pre_init_def cong del: if_weak_cong)
  have s: "s = s0\<lparr>allocated_once := True, alloc_size := ?P - 8, heap_start := p + 4,
               mem := z(p + ?P - 4 \<mapsto> 1, p + 4 \<mapsto> ?P - 6, p + ?P - 8 \<mapsto> ?P - 8)\<rparr>"
    using r' pre npos zs pf(2)
    by (simp add: pre_init_def w mz w8 w2 load_def store_def sizeof_blockHeader_def run_def
        split: if_splits)
  have hs: "heap_start s = p + 4" and al: "alloc_size s = ?P - 8" and ao: "allocated_once s"
    and ms: "mem s = z(p + ?P - 4 \<mapsto> 1, p + 4 \<mapsto> ?P - 6, p + ?P - 8 \<mapsto> ?P - 8)"
    by (simp_all add: s)
  have "hd_size (?P - 6) = ?P - 8"
    using hd_size_add [of "?P - 8" 2] P4 by (simp add: hd_size_def) presburger
  then have "chain (mem s) (heap_start s) [?P - 6] (heap_start s + alloc_size s)"
    using pf(2) by (simp add: hs al ms)
  then have "\<exists>hs. chain (mem s) (heap_start s) hs (heap_start s + alloc_size s)" by blast
  moreover have "mem s (heap_start s + alloc_size s) = Some 1"
    using pf(2) by (simp add: hs al ms)
  moreover have "mapped_region s"
    unfolding mapped_region_def hs al ms z_def using P4 pf(2) by (auto; presburger)
  ultimately have "heap_ok s" using ppos le ao by (simp add: heap_ok_def hs al)
  with al p hs show ?thesis by simp
qed

section \<open>disp_heap on a chain of blocks\<close>

lemma disp_loop_end: "mem s a = Some 1 \<Longrightarrow> disp_loop s a k rep = Some (Done rep)"
  by (subst disp_loop.simps) (simp add: load_def)

lemma disp_loop_step:
  assumes "mem s a = Some h" "h \<noteq> 1"
  shows "disp_loop s a k rep =
         disp_loop s (a + hd_size h) (wrap32 (k + 1))
           ((if hd_allocated h then rep\<lparr>used_size := wrap32 (used_size rep + hd_size h)\<rparr>
             else rep\<lparr>free_size := wrap32 (free_size rep + hd_size h)\<rparr>)
            \<lparr>rows := rows rep @ [\<lparr>r_no = k, r_used = hd_allocated h, r_prev_used = hd_prev_allocated h,
                   r_begin = a, r_end = a + hd_size h - 1, r_size = hd_size h\<rparr>]\<rparr>)"
proof -
  have two: "(t AND 2 \<noteq> 0) = odd (t div 2)" for t :: int
    using and_exp_eq_0_iff_not_bit [of t 1] bit_iff_odd [of t 1] by simp
  have one: "(h AND 1 \<noteq> 0) = hd_allocated h" by (simp add: hd_allocated_def)
  have p1: "hd_allocated h \<Longrightarrow> (h - 1 AND 2 \<noteq> 0) = hd_prev_allocated h"
    unfolding hd_prev_allocated_def hd_allocated_arith two by presburger
  have p0: "(h AND 2 \<noteq> 0) = hd_prev_allocated h" by (simp add: hd_prev_allocated_def)
  have sz: "hd_size h = h - (if hd_allocated h then 1 else 0) - (if hd_prev_allocated h then 2 else 0)"
    unfolding hd_prev_allocated_def hd_allocated_arith two hd_size_arith by presburger
  show ?thesis
    using assms
    by (subst disp_loop.simps)
      (cases "hd_allocated h"; cases "hd_prev_allocated h";
        simp add: load_def Let_def one p1 p0 sz)
qed

lemma disp_loop_chain:
  assumes "chain (mem s) a hs e" "mem s e = Some 1"
    and "0 \<le> used_size rep" "0 \<le> free_size rep"
    and "used_size rep + free_size rep + (e - a) < 2147483648"
  shows "\<exists>rep'. disp_loop s a k rep = Some (Done rep') \<and> rows rep' = rows rep @ rows_at a k hs
           \<and> used_size rep' + free_size rep' = used_size rep + free_size rep + (e - a)
           \<and> 0 \<le> used_size rep' \<and> 0 \<le> free_size rep'"
  using assms
proof (induction hs arbitrary: a k rep)
  case Nil
  then show ?case by (simp add: disp_loop_end)
next
  case (Cons h hs)
  from Cons.prems(1) have c: "chain (mem s) (a + hd_size h) hs e" and p: "0 < hd_size h"
    and m: "mem s a = Some h" by auto
  have n1: "h \<noteq> 1" using p by (rule hd_size_pos_neq_1)
  from chain_le [OF c] have le: "a + hd_size h \<le> e" .
  let ?row = "\<lparr>r_no = k, r_used = hd_allocated h, r_prev_used = hd_prev_allocated h,
                   r_begin = a, r_end = a + hd_size h - 1, r_size = hd_size h\<rparr>"
  define rep1 where "rep1 = (if hd_allocated h then rep\<lparr>used_size := wrap32 (used_size rep + hd_size h)\<rparr>
             else rep\<lparr>free_size := wrap32 (free_size rep + hd_size h)\<rparr>)\<lparr>rows := rows rep @ [?row]\<rparr>"
  have wu: "wrap32 (used_size rep + hd_size h) = used_size rep + hd_size h"
    and wf: "wrap32 (free_size rep + hd_size h) = free_size rep + hd_size h"
    using Cons.prems(3-5) p le by (simp_all add: wrap32_id)
  have r1: "rows rep1 = rows rep @ [?row]"
    "used_size rep1 + free_size rep1 = used_size rep + free_size rep + hd_size h"
    "0 \<le> used_size rep1" "0 \<le> free_size rep1"
    using Cons.prems(3,4) p by (simp_all add: rep1_def wu wf)
  have step: "disp_loop s a k rep = disp_loop s (a + hd_size h) (wrap32 (k + 1)) rep1"
    unfolding rep1_def using m n1 by (rule disp_loop_step)
  have "used_size rep1 + free_size rep1 + (e - (a + hd_size h)) < 2147483648"
    using r1(2) Cons.prems(5) by simp
  from Cons.IH [OF c Cons.prems(2) r1(3,4) this, of "wrap32 (k + 1)"]
  obtain rep' where "disp_loop s (a + hd_size h) (wrap32 (k + 1)) rep1 = Some (Done rep')"
    "rows rep' = rows rep1 @ rows_at (a + hd_size h) (wrap32 (k + 1)) hs"
    "used_size rep' + free_size rep' = used_size rep1 + free_size rep1 + (e - (a + hd_size h))"
    "0 \<le> used_size rep'" "0 \<le> free_size rep'" by blast
  with step r1 show ?case by (intro exI [of _ rep']) simp
qed

lemma rows_at_blocks:
  "map (\<lambda>r. (r_begin r, r_size r, r_used r)) (rows_at a k hs) =
   map (\<lambda>(x, h). (x, hd_size h, hd_allocated h)) (blocks_at a hs)"
  by (induction hs arbitrary: a k) simp_all

lemma merged_no_adjacent_free: "merged hs \<Longrightarrow> no_adjacent_free (rows_at a k hs)"
proof (induction hs arbitrary: a k)
  case Nil
  then show ?case by simp
next
  case (Cons h hs)
  then show ?case by (cases hs) auto
qed

lemma disp_heap_ok:
  assumes "heap_ok s" "chain (mem s) (heap_start s) hs (heap_start s + alloc_size s)"
  shows "\<exists>rep. disp_heap s = Some (Done rep) \<and> rows rep = rows_at (heap_start s) 1 hs
           \<and> used_size rep + free_size rep = alloc_size s"
proof -
  let ?rep = "\<lparr>rows = [], used_size = 0, free_size = 0\<rparr>"
  from assms(1) have e: "mem s (heap_start s + alloc_size s) = Some 1"
    and lim: "alloc_size s \<le> 2147483632" by (simp_all add: heap_ok_def)
  have "used_size ?rep + free_size ?rep + (heap_start s + alloc_size s - heap_start s) < 2147483648"
    using lim by simp
  from disp_loop_chain [OF assms(2) e _ _ this, of 1] show ?thesis
    by (auto simp: disp_heap_def)
qed

section \<open>The operations keep the heap well formed\<close>

lemma heap_ok_chain_pos:
  assumes "heap_ok s"
  obtains hs where "chain (mem s) (heap_start s) hs (heap_start s + alloc_size s)"
  using assms by (auto simp: heap_ok_def)

lemma balloc_scan_heap_ok:
  assumes ok: "heap_ok s" and ch: "chain (mem s) (heap_start s) hs (heap_start s + alloc_size s)"
  shows "balloc_scan s B (heap_start s) 0 = Some (Done (scan_list B (heap_start s) hs 0 0))"
  using ch by (rule balloc_scan_chain) (use ok in \<open>auto simp: heap_ok_def\<close>)

lemma scan_list_heap_ok:
  assumes ok: "heap_ok s" and ch: "chain (mem s) (heap_start s) hs (heap_start s + alloc_size s)"
  shows "(scan_list B (heap_start s) hs 0 0 = 0 \<and>
            (\<forall>(x, h) \<in> set (blocks_at (heap_start s) hs). \<not> eligible B h))
       \<or> (\<exists>h. best_in B (blocks_at (heap_start s) hs) (scan_list B (heap_start s) hs 0 0) h)"
proof -
  from ok have "0 < heap_start s" by (simp add: heap_ok_def)
  from scan_list_best [OF ch this, of B 0 0] show ?thesis by auto
qed

lemma best_in_block:
  assumes "best_in B (blocks_at a hs) x h" "chain m a hs e"
  shows "\<exists>xs ys. hs = xs @ h # ys \<and> x = a + total xs \<and> eligible B h \<and> a \<le> x"
proof -
  from assms(1) have i: "(x, h) \<in> set (blocks_at a hs)" and el: "eligible B h"
    by (simp_all add: best_in_def)
  from blocks_at_split [OF i] obtain xs ys where "hs = xs @ h # ys" "x = a + total xs" by blast
  moreover from blocks_at_lower [OF i assms(2)] have "a \<le> x" by simp
  ultimately show ?thesis using el by blast
qed

lemma balloc_heap_ok:
  assumes ok: "heap_ok s" and n: "n < 2147483648" and r: "balloc n s = Some (Done (p, s'))"
  shows "heap_ok s' \<and> heap_start s' = heap_start s \<and> alloc_size s' = alloc_size s"
proof (cases "n < 1")
  case True
  with r ok show ?thesis by (simp add: balloc_def)
next
  case False
  then have n1: "1 \<le> n" by simp
  from ok obtain hs where ch: "chain (mem s) (heap_start s) hs (heap_start s + alloc_size s)"
    by (rule heap_ok_chain_pos)
  let ?B = "block_size n"
  let ?r = "scan_list ?B (heap_start s) hs 0 0"
  have sc: "balloc_scan s ?B (heap_start s) 0 = Some (Done ?r)"
    using ok ch by (rule balloc_scan_heap_ok)
  show ?thesis
  proof (cases "?r = 0")
    case True
    with r sc False ok show ?thesis by (simp add: balloc_def)
  next
    case nz: False
    with scan_list_heap_ok [OF ok ch, of ?B] obtain h where "best_in ?B (blocks_at (heap_start s) hs) ?r h"
      by auto
    from best_in_block [OF this ch] obtain xs ys where
      hs: "hs = xs @ h # ys" and x: "?r = heap_start s + total xs" and el: "eligible ?B h" by blast
    from r sc False nz have pl: "run (balloc_place s ?B ?r) = Done (p, s')"
      by (simp add: balloc_def)
    from block_size_cases [OF n1 n] show ?thesis
    proof
      assume "n \<le> 2147483636 \<and> ?B = (n + 11) div 8 * 8 \<and> 0 < ?B \<and> ?B mod 4 = 0"
      then have B: "0 < ?B" "?B mod 4 = 0" by simp_all
      from el have "?B \<le> hd_size h" by (simp add: eligible_def)
      from balloc_place_ok [OF ok ch [unfolded hs] B this] pl x show ?thesis
        by (auto simp: run_def)
    next
      assume "2147483636 < n \<and> - 2147483648 \<le> ?B \<and> ?B \<le> - 2147483640"
      then have B: "- 2147483648 \<le> ?B" "?B \<le> - 2147483640" by simp_all
      from ch hs x have mb: "mem s ?r = Some h" and pb: "0 < hd_size h"
        and cy: "chain (mem s) (?r + hd_size h) ys (heap_start s + alloc_size s)"
        by (simp_all add: chain_append)
      from chain_le [OF cy] have "?r + hd_size h \<le> heap_start s + alloc_size s" .
      from balloc_place_overflow [OF ok mb pb this B] pl show ?thesis by (simp add: run_def)
    qed
  qed
qed

lemma balloc_selects:
  assumes ok: "heap_ok s" and ch: "chain (mem s) (heap_start s) hs (heap_start s + alloc_size s)"
    and n: "1 \<le> n" "n \<le> 2147483636"
    and ex: "\<exists>(x, h) \<in> set (blocks_at (heap_start s) hs). eligible (block_size n) h"
  shows "\<exists>x h s'. balloc n s = Some (Done (x + 4, s')) \<and>
            best_in (block_size n) (blocks_at (heap_start s) hs) x h"
proof -
  let ?B = "block_size n"
  let ?r = "scan_list ?B (heap_start s) hs 0 0"
  have sc: "balloc_scan s ?B (heap_start s) 0 = Some (Done ?r)"
    using ok ch by (rule balloc_scan_heap_ok)
  from scan_list_heap_ok [OF ok ch, of ?B] ex obtain h where
    b: "best_in ?B (blocks_at (heap_start s) hs) ?r h" by auto
  from best_in_block [OF this ch] obtain xs ys where
    hs: "hs = xs @ h # ys" and x: "?r = heap_start s + total xs" and el: "eligible ?B h"
    and ge: "heap_start s \<le> ?r" by blast
  from ok ge have nz: "?r \<noteq> 0" by (auto simp: heap_ok_def)
  from block_size_cases [of n] n have B: "0 < ?B" "?B mod 4 = 0" by auto
  from el have "?B \<le> hd_size h" by (simp add: eligible_def)
  from balloc_place_ok [OF ok ch [unfolded hs] B this] x obtain s' where
    "balloc_place s ?B ?r = Some (?r + 4, s')" by auto
  with sc nz n have "balloc n s = Some (Done (?r + 4, s'))" by (simp add: balloc_def run_def)
  with b show ?thesis by blast
qed

lemma coalesce_heap_ok:
  assumes ok: "heap_ok s"
  shows "\<exists>s' hs'. coalesce s = Some (Done (0, s')) \<and> heap_ok s' \<and>
           heap_start s' = heap_start s \<and> alloc_size s' = alloc_size s \<and>
           chain (mem s') (heap_start s') hs' (heap_start s' + alloc_size s') \<and> merged hs' \<and>
           coalesce s' = Some (Done (0, s'))"
proof -
  let ?a = "heap_start s" and ?e = "heap_start s + alloc_size s"
  from ok obtain hs where ch: "chain (mem s) ?a hs ?e" by (rule heap_ok_chain_pos)
  from ok have e: "mem s ?e = Some 1" and lim: "?e - ?a < 2147483644" by (simp_all add: heap_ok_def)
  from coalesce_loop_chain [OF ch e lim] obtain s' hs' where
    r: "coalesce_loop s ?a = Some (Done s')" and c': "chain (mem s') ?a hs' ?e" and mg: "merged hs'"
    and e': "mem s' ?e = Some 1" and sh: "same_shape s s'" by blast
  from sh have f: "heap_start s' = ?a" "alloc_size s' = alloc_size s" "allocated_once s' = allocated_once s"
    and d: "\<And>x. (mem s' x = None) = (mem s x = None)" by (simp_all add: same_shape_def)
  have "mapped_region s'" using ok d unfolding heap_ok_def mapped_region_def f by simp
  with ok c' e' f have ok': "heap_ok s'" unfolding heap_ok_def by auto
  have "coalesce_loop s' (heap_start s') = Some (Done s')"
    unfolding f using c' e' mg by (rule coalesce_loop_merged)
  with r ok' c' mg f show ?thesis by (auto simp: coalesce_def)
qed

lemma chain_tiles: "chain m a hs e \<Longrightarrow> tiles a (rows_at a k hs) e"
  by (induction hs arbitrary: a k) auto

lemma bfree_fields:
  assumes "bfree p s = Done (r, s')"
  shows "heap_start s' = heap_start s \<and> alloc_size s' = alloc_size s"
  using assms
  by (auto simp: bfree_def run_def load_def store_def Let_def
      split: if_splits option.splits bind_splits)

lemma reachable_inv:
  assumes "reachable os m s"
  shows "heap_ok s \<and> alloc_size s = padded_size os m - 8 \<and> mmap_result os = Some (heap_start s - 4)"
  using assms
proof (induction rule: reachable.induct)
  case (init s0 s)
  from init_heap_success [OF init(1,2,3,4)] show ?case .
next
  case (init_again s os' n r s')
  then have "allocated_once s" by (simp add: heap_ok_def)
  with init_again(2) have "s' = s" by (simp add: init_heap_def)
  with init_again(3) show ?case by simp
next
  case (balloc s n p s')
  from balloc(4) have ok: "heap_ok s" by simp
  from balloc_heap_ok [OF ok balloc(2,3)] balloc(4) show ?case by simp
next
  case (bfree s p r s')
  from bfree(3) have ok: "heap_ok s" by simp
  from bfree_heap_ok [OF ok bfree(2)] bfree_fields [OF bfree(2)] bfree(3) show ?case by simp
next
  case (coalesce s r s')
  from coalesce(3) have ok: "heap_ok s" by simp
  from coalesce_heap_ok [OF ok] coalesce(2,3) show ?case by auto
qed

lemma blocks_at_upper:
  assumes "(x, h) \<in> set (blocks_at a hs)" "chain m a hs e"
  shows "x + hd_size h \<le> e"
proof -
  from blocks_at_split [OF assms(1)] obtain xs ys where "hs = xs @ h # ys" "x = a + total xs"
    by blast
  with assms(2) have "chain m (x + hd_size h) ys e" by (simp add: chain_append)
  then show ?thesis by (rule chain_le)
qed

section \<open>The claims about every initialised heap\<close>

text \<open>
  \<^bold>\<open>C8\<close>, as the code has it. In every state reached by a successful \<^verbatim>\<open>init_heap\<close> and any
  sequence of \<^verbatim>\<open>init_heap\<close>, \<^verbatim>\<open>balloc\<close>, \<^verbatim>\<open>bfree\<close> and \<^verbatim>\<open>coalesce\<close> calls that
  returned, the walk from \<^verbatim>\<open>heap_start\<close> that advances by each header's masked size (the walk
  of \<^verbatim>\<open>disp_heap\<close>) ends at the end mark; its blocks cover \<open>[heap_start, heap_start + alloc_size)\<close>
  one after the other, with no gap and no overlap; their sizes sum to \<^verbatim>\<open>alloc_size\<close>, which is
  the padded region size minus 8 (the 4 bytes skipped before the first header and the 4 bytes
  of the end mark belong to no block); \<^verbatim>\<open>heap_start\<close> is still 4 bytes into the mapping, and
  the word at \<open>heap_start + alloc_size\<close> still holds exactly 1.
\<close>

theorem blocks_tile_region:
  assumes "reachable os m s"
  shows "\<exists>rep. disp_heap s = Some (Done rep) \<and>
           tiles (heap_start s) (rows rep) (heap_start s + alloc_size s) \<and>
           used_size rep + free_size rep = padded_size os m - 8 \<and>
           alloc_size s = padded_size os m - 8 \<and>
           mmap_result os = Some (heap_start s - sizeof_blockHeader) \<and>
           load s (heap_start s + alloc_size s) = Some 1"
proof -
  from reachable_inv [OF assms] have ok: "heap_ok s" and al: "alloc_size s = padded_size os m - 8"
    and mm: "mmap_result os = Some (heap_start s - 4)" by simp_all
  from ok obtain hs where ch: "chain (mem s) (heap_start s) hs (heap_start s + alloc_size s)"
    by (rule heap_ok_chain_pos)
  from disp_heap_ok [OF ok ch] obtain rep where d: "disp_heap s = Some (Done rep)"
    and rw: "rows rep = rows_at (heap_start s) 1 hs"
    and sm: "used_size rep + free_size rep = alloc_size s" by blast
  from chain_tiles [OF ch, of 1] rw have "tiles (heap_start s) (rows rep) (heap_start s + alloc_size s)"
    by simp
  moreover from ok have "load s (heap_start s + alloc_size s) = Some 1"
    by (simp add: heap_ok_def load_def)
  ultimately show ?thesis using d sm al mm by (simp add: sizeof_blockHeader_def)
qed

theorem blocks_tile_region_witness:
  "reachable os1 4096 st3 \<and>
   (\<exists>rep. disp_heap st3 = Some (Done rep) \<and>
      tiles 65540 (rows rep) 69628 \<and> used_size rep + free_size rep = 4088 \<and>
      load st3 69628 = Some 1)"
proof -
  have f: "heap_start st3 = 65540" "alloc_size st3 = 4088" by (simp_all add: st_defs)
  from blocks_tile_region [OF reachable_st3] reachable_st3 show ?thesis
    by (auto simp: f padded_os1)
qed

text \<open>
  The sum is not the padded region size itself: after \<^verbatim>\<open>init_heap(4096)\<close> with 4096-byte
  pages the region is 4096 bytes long and the single block has 4088.
\<close>

theorem block_sizes_sum_below_padded_size:
  "init_heap os1 4096 initial_heap = Done (0, st0) \<and> disp_heap st0 = Some (Done rep0) \<and>
   used_size rep0 + free_size rep0 = 4088 \<and> padded_size os1 4096 = 4096 \<and>
   used_size rep0 + free_size rep0 \<noteq> padded_size os1 4096"
  by (simp add: init_st0 disp_st0 padded_os1) (simp add: rep0_def)

text \<open>
  \<^bold>\<open>C5\<close>. On every initialised heap \<^verbatim>\<open>coalesce\<close> returns 0; in the state it leaves, no two
  consecutive blocks of the walk are both free; and a second \<^verbatim>\<open>coalesce\<close> right after it
  returns 0 and leaves that state exactly as it is.
\<close>

theorem coalesce_idempotent:
  assumes "reachable os m s"
  shows "\<exists>s' rep. coalesce s = Some (Done (0, s')) \<and> disp_heap s' = Some (Done rep) \<and>
           no_adjacent_free (rows rep) \<and> coalesce s' = Some (Done (0, s'))"
proof -
  from reachable_inv [OF assms] have ok: "heap_ok s" by simp
  from coalesce_heap_ok [OF ok] obtain s' hs' where c: "coalesce s = Some (Done (0, s'))"
    and ok': "heap_ok s'" and ch: "chain (mem s') (heap_start s') hs' (heap_start s' + alloc_size s')"
    and mg: "merged hs'" and c2: "coalesce s' = Some (Done (0, s'))" by blast
  from disp_heap_ok [OF ok' ch] obtain rep where d: "disp_heap s' = Some (Done rep)"
    and rw: "rows rep = rows_at (heap_start s') 1 hs'" by blast
  from merged_no_adjacent_free [OF mg] rw have "no_adjacent_free (rows rep)" by simp
  with c d c2 show ?thesis by blast
qed

theorem coalesce_idempotent_witness:
  "reachable os1 4096 st7 \<and> coalesce st7 = Some (Done (0, st8)) \<and>
   (\<exists>rep. disp_heap st8 = Some (Done rep) \<and> no_adjacent_free (rows rep)) \<and>
   coalesce st8 = Some (Done (0, st8))"
  using coalesce_idempotent [OF reachable_st7] reachable_st7 coalesce_st7 coalesce_st8
  by auto

text \<open>
  \<^bold>\<open>C1\<close>. On every initialised heap and for every request \<open>n \<ge> 1\<close>: if the walk shows a
  free block whose size is at least the required block size (\<open>n + 4\<close> rounded up to a
  multiple of 8), then \<^verbatim>\<open>balloc\<close> computes exactly that block size and returns the payload
  address (header address plus 4) of a free block that is large enough, is no larger than
  any other free block that is large enough, and has the lowest address among those of its
  size.
\<close>

theorem balloc_best_fit:
  assumes "reachable os m s" "1 \<le> n" "disp_heap s = Some (Done rep)"
    and "\<exists>r \<in> set (rows rep). \<not> r_used r \<and> (n + sizeof_blockHeader + 7) div 8 * 8 \<le> r_size r"
  shows "block_size n = (n + sizeof_blockHeader + 7) div 8 * 8 \<and>
         (\<exists>r \<in> set (rows rep). \<exists>s'.
            balloc n s = Some (Done (r_begin r + sizeof_blockHeader, s')) \<and>
            \<not> r_used r \<and> block_size n \<le> r_size r \<and>
            (\<forall>r' \<in> set (rows rep). \<not> r_used r' \<and> block_size n \<le> r_size r' \<longrightarrow>
                r_size r \<le> r_size r' \<and> (r_size r' = r_size r \<longrightarrow> r_begin r \<le> r_begin r')))"
proof -
  let ?a = "heap_start s"
  let ?R = "(n + sizeof_blockHeader + 7) div 8 * 8"
  from reachable_inv [OF assms(1)] have ok: "heap_ok s" by simp
  from ok obtain hs where ch: "chain (mem s) ?a hs (?a + alloc_size s)"
    by (rule heap_ok_chain_pos)
  from disp_heap_ok [OF ok ch] assms(3) have rw: "rows rep = rows_at ?a 1 hs" by auto
  have img: "(\<lambda>r. (r_begin r, r_size r, r_used r)) ` set (rows rep) =
             (\<lambda>(x, h). (x, hd_size h, hd_allocated h)) ` set (blocks_at ?a hs)"
  proof -
    have "set (map (\<lambda>r. (r_begin r, r_size r, r_used r)) (rows_at ?a 1 hs)) =
          set (map (\<lambda>(x, h). (x, hd_size h, hd_allocated h)) (blocks_at ?a hs))"
      by (simp only: rows_at_blocks)
    then show ?thesis unfolding rw by (simp only: set_map)
  qed
  have row_block: "\<exists>h. (r_begin r, h) \<in> set (blocks_at ?a hs) \<and> hd_size h = r_size r \<and> hd_allocated h = r_used r"
    if "r \<in> set (rows rep)" for r
  proof -
    from that have "(r_begin r, r_size r, r_used r) \<in> (\<lambda>r. (r_begin r, r_size r, r_used r)) ` set (rows rep)"
      by (rule imageI)
    then show ?thesis unfolding img by auto
  qed
  have block_row: "\<exists>r \<in> set (rows rep). r_begin r = x \<and> r_size r = hd_size h \<and> r_used r = hd_allocated h"
    if "(x, h) \<in> set (blocks_at ?a hs)" for x h
  proof -
    from that have "(x, hd_size h, hd_allocated h) \<in> (\<lambda>(x, h). (x, hd_size h, hd_allocated h)) ` set (blocks_at ?a hs)"
      by force
    then show ?thesis unfolding img [symmetric] by auto
  qed
  from assms(4) obtain r0 where r0: "r0 \<in> set (rows rep)" "\<not> r_used r0" "?R \<le> r_size r0" by blast
  from row_block [OF r0(1)] obtain h0 where h0: "(r_begin r0, h0) \<in> set (blocks_at ?a hs)"
    "hd_size h0 = r_size r0" "hd_allocated h0 = r_used r0" by blast
  from blocks_at_lower [OF h0(1) ch] blocks_at_upper [OF h0(1) ch]
  have "r_size r0 \<le> alloc_size s" using h0(2) by simp
  with ok r0(3) have R: "?R \<le> 2147483632" by (simp add: heap_ok_def)
  then have nb: "n \<le> 2147483636" unfolding sizeof_blockHeader_def by presburger
  with assms(2) have B: "block_size n = ?R" by (simp add: block_size_exact sizeof_blockHeader_def)
  have "\<exists>(x, h) \<in> set (blocks_at ?a hs). eligible (block_size n) h"
    using h0 r0 B by (auto simp: eligible_def)
  from balloc_selects [OF ok ch assms(2) nb this] obtain x h s' where
    r: "balloc n s = Some (Done (x + 4, s'))" and b: "best_in (block_size n) (blocks_at ?a hs) x h"
    by blast
  from b have xi: "(x, h) \<in> set (blocks_at ?a hs)" and el: "eligible (block_size n) h"
    and mn: "\<And>x' h'. (x', h') \<in> set (blocks_at ?a hs) \<Longrightarrow> eligible (block_size n) h' \<Longrightarrow>
          hd_size h \<le> hd_size h' \<and> (hd_size h' = hd_size h \<longrightarrow> x \<le> x')"
    by (auto simp: best_in_def)
  from block_row [OF xi] obtain r1 where r1: "r1 \<in> set (rows rep)" "r_begin r1 = x"
    "r_size r1 = hd_size h" "r_used r1 = hd_allocated h" by blast
  have "r_size r1 \<le> r_size r' \<and> (r_size r' = r_size r1 \<longrightarrow> r_begin r1 \<le> r_begin r')"
    if "r' \<in> set (rows rep)" "\<not> r_used r'" "block_size n \<le> r_size r'" for r'
  proof -
    from row_block [OF that(1)] obtain h' where h': "(r_begin r', h') \<in> set (blocks_at ?a hs)"
      "hd_size h' = r_size r'" "hd_allocated h' = r_used r'" by blast
    with that have "eligible (block_size n) h'" by (simp add: eligible_def)
    from mn [OF h'(1) this] h'(2) r1 show ?thesis by simp
  qed
  then have "\<forall>r' \<in> set (rows rep). \<not> r_used r' \<and> block_size n \<le> r_size r' \<longrightarrow>
                r_size r1 \<le> r_size r' \<and> (r_size r' = r_size r1 \<longrightarrow> r_begin r1 \<le> r_begin r')"
    by blast
  moreover have "balloc n s = Some (Done (r_begin r1 + sizeof_blockHeader, s'))"
    using r r1(2) by (simp add: sizeof_blockHeader_def)
  moreover have "\<not> r_used r1" "block_size n \<le> r_size r1"
    using el r1 by (simp_all add: eligible_def)
  ultimately show ?thesis using B r1(1) by blast
qed

text \<open>
  In \<open>st3\<close> the free blocks are 104 bytes at 65540 and 3880 bytes at 65748; a request of
  8 bytes needs 16 and gets the first.
\<close>

theorem balloc_best_fit_witness:
  "reachable os1 4096 st3 \<and> disp_heap st3 = Some (Done rep3) \<and> block_size 8 = 16 \<and>
   (\<exists>r \<in> set (rows rep3). \<exists>s'.
      balloc 8 st3 = Some (Done (r_begin r + sizeof_blockHeader, s')) \<and>
      \<not> r_used r \<and> block_size 8 \<le> r_size r \<and>
      (\<forall>r' \<in> set (rows rep3). \<not> r_used r' \<and> block_size 8 \<le> r_size r' \<longrightarrow>
          r_size r \<le> r_size r' \<and> (r_size r' = r_size r \<longrightarrow> r_begin r \<le> r_begin r')))"
proof -
  have "\<exists>r \<in> set (rows rep3). \<not> r_used r \<and> (8 + sizeof_blockHeader + 7) div 8 * 8 \<le> r_size r"
    by (simp add: rep3_def sizeof_blockHeader_def)
  moreover have b: "block_size 8 = 16"
    by (simp add: block_size_def sizeof_blockHeader_def wrap32_def)
  ultimately show ?thesis
    using balloc_best_fit [OF reachable_st3 _ disp_st3, of 8] reachable_st3 disp_st3
    by (simp add: sizeof_blockHeader_def b)
qed

end
